theory Spec2Isabelle
  imports Complex_Main "HOL-Library.Word" "HOL-Library.Log_Nat" "HOL-Library.Sublist"
begin

unbundle bit_operations_syntax

section \<open>Machine types of bigfloat.c\<close>

text \<open>
  \<^verbatim>\<open>limb_t\<close> is \<^verbatim>\<open>uint32_t\<close> and \<^verbatim>\<open>dlimb_t\<close> is \<^verbatim>\<open>uint64_t\<close>.  The C type
  \<^verbatim>\<open>int\<close> has 32 bits on the program's target (wasm32), so an expression whose
  operands are both \<^verbatim>\<open>limb_t\<close> is evaluated in 32 bits and wraps there, before any
  conversion to a wider type; an expression with a \<^verbatim>\<open>dlimb_t\<close> operand is evaluated in
  64 bits.  Every word operation below is written at the width the C expression has.
\<close>

type_synonym limb_t = "32 word"
type_synonym dlimb_t = "64 word"

definition BF_MAX_LIMBS :: nat where
  "BF_MAX_LIMBS = 128"

definition KARATSUBA_THRESHOLD :: nat where
  "KARATSUBA_THRESHOLD = 16"

section \<open>IEEE binary64 arithmetic\<close>

text \<open>
  A finite \<^verbatim>\<open>double\<close> is the rational number it denotes.  Every arithmetic operation
  computes the exact rational result and rounds it to the nearest binary64 value, ties
  to even: 53 significant bits, and a smallest quantum of \<open>2 powi - 1074\<close> (subnormal
  numbers included).  Signed zeros are identified, which no comparison of the program
  can observe.  Infinities and NaN are not represented: the program can produce one only
  while parsing a decimal string of more than 300 digits, and the conversion to
  \<^verbatim>\<open>int\<close> that follows is undefined in C for every value of \<open>2 ^ 31\<close> or more.
\<close>

type_synonym double = rat

definition round_half_even :: "rat \<Rightarrow> int" where
  "round_half_even y =
     (let f = \<lfloor>y\<rfloor>; r = y - of_int f in
      if r < 1 / 2 then f
      else if 1 / 2 < r then f + 1
      else if even f then f else f + 1)"

definition rnd :: "rat \<Rightarrow> double" where
  "rnd x =
     (let N = \<lfloor>\<bar>x\<bar> * 2 ^ 1074\<rfloor>;
          e = max (- 1074) (bitlen N - 1127);
          q = 2 powi e
      in sgn x * of_int (round_half_even (\<bar>x\<bar> / q)) * q)"

definition fadd :: "double \<Rightarrow> double \<Rightarrow> double" where
  "fadd x y = rnd (x + y)"

definition fsub :: "double \<Rightarrow> double \<Rightarrow> double" where
  "fsub x y = rnd (x - y)"

definition fmul :: "double \<Rightarrow> double \<Rightarrow> double" where
  "fmul x y = rnd (x * y)"

definition fdiv :: "double \<Rightarrow> double \<Rightarrow> double" where
  "fdiv x y = rnd (x / y)"

text \<open>Conversions: \<^verbatim>\<open>(double)limb\<close> is exact; \<^verbatim>\<open>(int)d\<close> and \<^verbatim>\<open>(limb_t)d\<close> truncate
  towards zero (defined in C while the truncated value fits the target type).\<close>

definition double_of_limb :: "limb_t \<Rightarrow> double" where
  "double_of_limb w = of_int (uint w)"

definition int_of_double :: "double \<Rightarrow> int" where
  "int_of_double d = (if 0 \<le> d then \<lfloor>d\<rfloor> else - \<lfloor>- d\<rfloor>)"

definition limb_of_double :: "double \<Rightarrow> limb_t" where
  "limb_of_double d = word_of_int (int_of_double d)"

section \<open>The BigFloat structure and the store\<close>

text \<open>
  \<^verbatim>\<open>struct BigFloat { limb_t limbs[BF_MAX_LIMBS]; int32_t nlimbs; int8_t sign; }\<close>.
  The limb array is a function from indices; the program is defined in C only while
  every index stays below \<open>BF_MAX_LIMBS\<close>.  A negative limb count is undefined at the
  first \<^verbatim>\<open>memset\<close> of every entry point, so counts are natural numbers.
\<close>

record BigFloat =
  limbs :: "nat \<Rightarrow> limb_t"
  nlimbs :: nat
  sign :: int

text \<open>
  The functions of the program receive pointers and write through them, and several call
  sites pass the same object as output and as input.  A pointer is a \<open>ref\<close>: an object of
  the caller, or one of the local variables of the program (\<^verbatim>\<open>neg_b\<close> of \<^verbatim>\<open>bf_sub\<close>,
  \<^verbatim>\<open>prod\<close> of \<^verbatim>\<open>mandelbrot_step\<close>, and the locals of the entry points, which are never
  active together and share their stack slots).  The state holds every object and the
  static array \<^verbatim>\<open>scratch\<close>.
\<close>

datatype ref = Obj nat | Neg_b | Prod | Cr | Ci | Zr | Zi | Tmp1 | Tmp2 | Z2r | Z2i

record state =
  bf :: "ref \<Rightarrow> BigFloat"
  scratch :: "nat \<Rightarrow> limb_t"

definition limb :: "state \<Rightarrow> ref \<Rightarrow> nat \<Rightarrow> limb_t" where
  "limb s p i = limbs (bf s p) i"

definition set_limb :: "ref \<Rightarrow> nat \<Rightarrow> limb_t \<Rightarrow> state \<Rightarrow> state" where
  "set_limb p i v s = s\<lparr>bf := (bf s)(p := (bf s p)\<lparr>limbs := (limbs (bf s p))(i := v)\<rparr>)\<rparr>"

definition set_nlimbs :: "ref \<Rightarrow> nat \<Rightarrow> state \<Rightarrow> state" where
  "set_nlimbs p n s = s\<lparr>bf := (bf s)(p := (bf s p)\<lparr>nlimbs := n\<rparr>)\<rparr>"

definition set_sign :: "ref \<Rightarrow> int \<Rightarrow> state \<Rightarrow> state" where
  "set_sign p v s = s\<lparr>bf := (bf s)(p := (bf s p)\<lparr>sign := v\<rparr>)\<rparr>"

definition set_scratch :: "nat \<Rightarrow> limb_t \<Rightarrow> state \<Rightarrow> state" where
  "set_scratch k v s = s\<lparr>scratch := (scratch s)(k := v)\<rparr>"

text \<open>\<^verbatim>\<open>memset(r->limbs, 0, n * sizeof(limb_t))\<close>,
  \<^verbatim>\<open>memcpy(r->limbs, a->limbs, n * sizeof(limb_t))\<close> and
  \<^verbatim>\<open>memset(scratch, 0, n * sizeof(limb_t))\<close>.\<close>

definition memset_limbs :: "ref \<Rightarrow> nat \<Rightarrow> state \<Rightarrow> state" where
  "memset_limbs p n s =
     s\<lparr>bf := (bf s)(p := (bf s p)\<lparr>limbs := (\<lambda>i. if i < n then 0 else limbs (bf s p) i)\<rparr>)\<rparr>"

definition memcpy_limbs :: "ref \<Rightarrow> ref \<Rightarrow> nat \<Rightarrow> state \<Rightarrow> state" where
  "memcpy_limbs r a n s =
     s\<lparr>bf := (bf s)(r := (bf s r)\<lparr>limbs :=
            (\<lambda>i. if i < n then limbs (bf s a) i else limbs (bf s r) i)\<rparr>)\<rparr>"

definition memset_scratch :: "nat \<Rightarrow> state \<Rightarrow> state" where
  "memset_scratch n s = s\<lparr>scratch := (\<lambda>k. if k < n then 0 else scratch s k)\<rparr>"

section \<open>Initialisation, copy and conversions\<close>

definition bf_zero :: "ref \<Rightarrow> nat \<Rightarrow> state \<Rightarrow> state" where
  "bf_zero r n s = set_sign r 0 (set_nlimbs r n (memset_limbs r n s))"

definition bf_copy :: "ref \<Rightarrow> ref \<Rightarrow> state \<Rightarrow> state" where
  "bf_copy r a s =
     (let s1 = memcpy_limbs r a (nlimbs (bf s a)) s;
          s2 = set_nlimbs r (nlimbs (bf s1 a)) s1
      in set_sign r (sign (bf s2 a)) s2)"

text \<open>The loop of \<^verbatim>\<open>bf_set_d\<close>: \<^verbatim>\<open>for (int i = nlimbs - 1; i >= 0 && d > 0; i--)\<close>.
  The third argument is \<open>i + 1\<close>.\<close>

fun set_d_loop :: "ref \<Rightarrow> nat \<Rightarrow> nat \<Rightarrow> double \<Rightarrow> state \<Rightarrow> state" where
  "set_d_loop r n 0 d s = s"
| "set_d_loop r n (Suc i) d s =
     (if 0 < d then
        let d1 = fmul d (2 ^ 32);
            l = limb_of_double d1;
            d2 = fsub d1 (double_of_limb l);
            s1 = (if Suc i = n then set_limb r i (limb s r i OR drop_bit 4 l) s
                  else set_limb r i l s)
        in set_d_loop r n i d2 s1
      else s)"

definition bf_set_d :: "ref \<Rightarrow> double \<Rightarrow> nat \<Rightarrow> state \<Rightarrow> state" where
  "bf_set_d r d n s =
     (let s0 = bf_zero r n s in
      if d = 0 then s0
      else
        let s1 = set_sign r (if d < 0 then - 1 else 1) s0;
            d1 = (if d < 0 then - d else d);
            int_part = int_of_double d1;
            d2 = fsub d1 (of_int int_part);
            s2 = set_limb r (n - 1) (push_bit 28 (word_of_int int_part)) s1
        in set_d_loop r n n d2 s2)"

text \<open>The loop of \<^verbatim>\<open>bf_to_d\<close>, from the most significant limb down; the third argument
  is \<open>i + 1\<close>.\<close>

fun to_d_loop :: "ref \<Rightarrow> nat \<Rightarrow> nat \<Rightarrow> double \<Rightarrow> double \<Rightarrow> state \<Rightarrow> double" where
  "to_d_loop a n 0 result scale s = result"
| "to_d_loop a n (Suc i) result scale s =
     (if Suc i = n then
        let r1 = double_of_limb (drop_bit 28 (limb s a i));
            r2 = fadd r1 (fdiv (double_of_limb (limb s a i AND 0x0FFFFFFF)) (2 ^ 28))
        in to_d_loop a n i r2 scale s
      else
        let scale1 = fdiv scale (2 ^ 32);
            r1 = fadd result (fmul (double_of_limb (limb s a i)) scale1)
        in to_d_loop a n i r1 scale1 s)"

definition bf_to_d :: "ref \<Rightarrow> state \<Rightarrow> double" where
  "bf_to_d a s =
     (if sign (bf s a) = 0 then 0
      else
        let result = to_d_loop a (nlimbs (bf s a)) (nlimbs (bf s a)) 0 1 s
        in if sign (bf s a) < 0 then - result else result)"

section \<open>Magnitude primitives\<close>

fun cmp_mag_loop :: "ref \<Rightarrow> ref \<Rightarrow> nat \<Rightarrow> state \<Rightarrow> int" where
  "cmp_mag_loop a b 0 s = 0"
| "cmp_mag_loop a b (Suc i) s =
     (if limb s a i < limb s b i then - 1
      else if limb s b i < limb s a i then 1
      else cmp_mag_loop a b i s)"

definition bf_cmp_mag :: "ref \<Rightarrow> ref \<Rightarrow> state \<Rightarrow> int" where
  "bf_cmp_mag a b s = cmp_mag_loop a b (nlimbs (bf s a)) s"

function add_mag_loop ::
  "ref \<Rightarrow> ref \<Rightarrow> ref \<Rightarrow> nat \<Rightarrow> nat \<Rightarrow> dlimb_t \<Rightarrow> state \<Rightarrow> state" where
  "add_mag_loop r a b n i carry s =
     (if i < n then
        let sum = ucast (limb s a i) + ucast (limb s b i) + carry;
            s1 = set_limb r i (ucast sum) s
        in add_mag_loop r a b n (i + 1) (drop_bit 32 sum) s1
      else s)"
  by pat_completeness auto
termination
  by (relation "measure (\<lambda>(r, a, b, n, i, carry, s). n - i)") auto

definition bf_add_mag :: "ref \<Rightarrow> ref \<Rightarrow> ref \<Rightarrow> state \<Rightarrow> state" where
  "bf_add_mag r a b s = add_mag_loop r a b (nlimbs (bf s a)) 0 0 s"

text \<open>\<^verbatim>\<open>bf_sub_mag\<close> computes in \<^verbatim>\<open>int64_t\<close>; every intermediate value lies between
  \<open>- 2 ^ 32\<close> and \<open>2 ^ 32\<close>, so the integers are unbounded here.\<close>

function sub_mag_loop ::
  "ref \<Rightarrow> ref \<Rightarrow> ref \<Rightarrow> nat \<Rightarrow> nat \<Rightarrow> int \<Rightarrow> state \<Rightarrow> state" where
  "sub_mag_loop r a b n i borrow s =
     (if i < n then
        let diff = uint (limb s a i) - uint (limb s b i) - borrow;
            diff1 = (if diff < 0 then diff + 2 ^ 32 else diff);
            borrow1 = (if diff < 0 then 1 else 0);
            s1 = set_limb r i (word_of_int diff1) s
        in sub_mag_loop r a b n (i + 1) borrow1 s1
      else s)"
  by pat_completeness auto
termination
  by (relation "measure (\<lambda>(r, a, b, n, i, borrow, s). n - i)") auto

definition bf_sub_mag :: "ref \<Rightarrow> ref \<Rightarrow> ref \<Rightarrow> state \<Rightarrow> state" where
  "bf_sub_mag r a b s = sub_mag_loop r a b (nlimbs (bf s a)) 0 0 s"

function is_zero_loop :: "ref \<Rightarrow> nat \<Rightarrow> state \<Rightarrow> bool" where
  "is_zero_loop a i s =
     (if i < nlimbs (bf s a) then
        (if limb s a i \<noteq> 0 then False else is_zero_loop a (i + 1) s)
      else True)"
  by pat_completeness auto
termination
  by (relation "measure (\<lambda>(a, i, s). nlimbs (bf s a) - i)") auto

definition bf_is_zero :: "ref \<Rightarrow> state \<Rightarrow> bool" where
  "bf_is_zero a s = is_zero_loop a 0 s"

section \<open>Addition and subtraction\<close>

definition bf_add :: "ref \<Rightarrow> ref \<Rightarrow> ref \<Rightarrow> state \<Rightarrow> state" where
  "bf_add r a b s =
     (let s1 = set_nlimbs r (nlimbs (bf s a)) s in
      if sign (bf s1 a) = 0 then bf_copy r b s1
      else if sign (bf s1 b) = 0 then bf_copy r a s1
      else
        let s3 =
          (if sign (bf s1 a) = sign (bf s1 b) then
             let s2 = bf_add_mag r a b s1 in set_sign r (sign (bf s2 a)) s2
           else
             let cmp = bf_cmp_mag a b s1 in
             if cmp = 0 then bf_zero r (nlimbs (bf s1 a)) s1
             else if 0 < cmp then
               let s2 = bf_sub_mag r a b s1 in set_sign r (sign (bf s2 a)) s2
             else
               let s2 = bf_sub_mag r b a s1 in set_sign r (sign (bf s2 b)) s2)
        in if bf_is_zero r s3 then set_sign r 0 s3 else s3)"

definition bf_sub :: "ref \<Rightarrow> ref \<Rightarrow> ref \<Rightarrow> state \<Rightarrow> state" where
  "bf_sub r a b s =
     (let s1 = bf_copy Neg_b b s;
          s2 = set_sign Neg_b (- sign (bf s1 Neg_b)) s1
      in bf_add r a Neg_b s2)"

section \<open>Multiplication and squaring\<close>

function mul_inner ::
  "ref \<Rightarrow> ref \<Rightarrow> nat \<Rightarrow> nat \<Rightarrow> nat \<Rightarrow> dlimb_t \<Rightarrow> state \<Rightarrow> dlimb_t \<times> state" where
  "mul_inner a b n i j carry s =
     (if j < n then
        let prod = ucast (limb s a i) * ucast (limb s b j);
            sum = ucast (scratch s (i + j)) + prod + carry;
            s1 = set_scratch (i + j) (ucast sum) s
        in mul_inner a b n i (j + 1) (drop_bit 32 sum) s1
      else (carry, s))"
  by pat_completeness auto
termination
  by (relation "measure (\<lambda>(a, b, n, i, j, carry, s). n - j)") auto

function mul_outer :: "ref \<Rightarrow> ref \<Rightarrow> nat \<Rightarrow> nat \<Rightarrow> state \<Rightarrow> state" where
  "mul_outer a b n i s =
     (if i < n then
        let (carry, s1) = mul_inner a b n i 0 0 s;
            s2 = set_scratch (i + n) (scratch s1 (i + n) + ucast carry) s1
        in mul_outer a b n (i + 1) s2
      else s)"
  by pat_completeness auto
termination
  by (relation "measure (\<lambda>(a, b, n, i, s). n - i)") auto

text \<open>The extraction loop shared by \<^verbatim>\<open>bf_mul_schoolbook\<close> and \<^verbatim>\<open>bf_sqr\<close>: the upper
  \<open>n\<close> limbs of scratch, shifted by 4 bits.\<close>

function extract_loop :: "ref \<Rightarrow> nat \<Rightarrow> nat \<Rightarrow> state \<Rightarrow> state" where
  "extract_loop r n i s =
     (if i < n then
        let combined = push_bit 4 (ucast (scratch s (n + i)) :: dlimb_t);
            combined1 = (if 0 < n + i
                         then combined OR ucast (drop_bit 28 (scratch s (n + i - 1)))
                         else combined);
            s1 = set_limb r i (ucast combined1) s
        in extract_loop r n (i + 1) s1
      else s)"
  by pat_completeness auto
termination
  by (relation "measure (\<lambda>(r, n, i, s). n - i)") auto

definition bf_mul_schoolbook :: "ref \<Rightarrow> ref \<Rightarrow> ref \<Rightarrow> state \<Rightarrow> state" where
  "bf_mul_schoolbook r a b s =
     (let n = nlimbs (bf s a);
          s1 = memset_scratch (2 * n + 2) s;
          s2 = mul_outer a b n 0 s1;
          s3 = extract_loop r n 0 s2;
          s4 = set_nlimbs r n s3;
          s5 = set_sign r (if sign (bf s4 a) = sign (bf s4 b) then 1 else - 1) s4;
          s6 = (if sign (bf s5 a) = 0 \<or> sign (bf s5 b) = 0 then set_sign r 0 s5 else s5)
      in if bf_is_zero r s6 then set_sign r 0 s6 else s6)"

definition bf_mul_karatsuba :: "ref \<Rightarrow> ref \<Rightarrow> ref \<Rightarrow> nat \<Rightarrow> state \<Rightarrow> state" where
  "bf_mul_karatsuba r a b depth s = bf_mul_schoolbook r a b s"

definition bf_mul :: "ref \<Rightarrow> ref \<Rightarrow> ref \<Rightarrow> state \<Rightarrow> state" where
  "bf_mul r a b s =
     (if nlimbs (bf s a) \<le> KARATSUBA_THRESHOLD then bf_mul_schoolbook r a b s
      else bf_mul_karatsuba r a b 0 s)"

text \<open>The \<^verbatim>\<open>while (carry && k < 2 * n + 2)\<close> loop of \<^verbatim>\<open>bf_sqr\<close>.\<close>

function sqr_carry_loop :: "nat \<Rightarrow> nat \<Rightarrow> dlimb_t \<Rightarrow> state \<Rightarrow> state" where
  "sqr_carry_loop n k carry s =
     (if carry \<noteq> 0 \<and> k < 2 * n + 2 then
        let sum = ucast (scratch s k) + carry;
            s1 = set_scratch k (ucast sum) s
        in sqr_carry_loop n (k + 1) (drop_bit 32 sum) s1
      else s)"
  by pat_completeness auto
termination
  by (relation "measure (\<lambda>(n, k, carry, s). 2 * n + 2 - k)") auto

text \<open>The off-diagonal loop.  In \<^verbatim>\<open>sum = scratch[i + j] + (limb_t)prod\<close> both operands are
  \<^verbatim>\<open>limb_t\<close>: the sum is formed in 32 bits and only then widened.\<close>

function sqr_inner :: "ref \<Rightarrow> nat \<Rightarrow> nat \<Rightarrow> nat \<Rightarrow> state \<Rightarrow> state" where
  "sqr_inner a n i j s =
     (if j < n then
        let prod = (ucast (limb s a i) * ucast (limb s a j) :: dlimb_t);
            prod_hi = drop_bit 63 prod;
            prod1 = push_bit 1 prod;
            sum = (ucast (scratch s (i + j) + (ucast prod1 :: limb_t)) :: dlimb_t);
            s1 = set_scratch (i + j) (ucast sum) s;
            carry = drop_bit 32 sum + drop_bit 32 prod1 + prod_hi;
            s2 = sqr_carry_loop n (i + j + 1) carry s1
        in sqr_inner a n i (j + 1) s2
      else s)"
  by pat_completeness auto
termination
  by (relation "measure (\<lambda>(a, n, i, j, s). n - j)") auto

function sqr_outer :: "ref \<Rightarrow> nat \<Rightarrow> nat \<Rightarrow> state \<Rightarrow> state" where
  "sqr_outer a n i s =
     (if i < n then
        let diag = (ucast (limb s a i) * ucast (limb s a i) :: dlimb_t);
            sum = (ucast (scratch s (2 * i) + (ucast diag :: limb_t)) :: dlimb_t);
            s1 = set_scratch (2 * i) (ucast sum) s;
            carry = drop_bit 32 sum + drop_bit 32 diag;
            s2 = set_scratch (2 * i + 1) (scratch s1 (2 * i + 1) + ucast carry) s1;
            s3 = (if drop_bit 32 carry \<noteq> 0
                  then set_scratch (2 * i + 2) (scratch s2 (2 * i + 2) + 1) s2
                  else s2)
        in sqr_outer a n (i + 1) (sqr_inner a n i (i + 1) s3)
      else s)"
  by pat_completeness auto
termination
  by (relation "measure (\<lambda>(a, n, i, s). n - i)") auto

definition bf_sqr :: "ref \<Rightarrow> ref \<Rightarrow> state \<Rightarrow> state" where
  "bf_sqr r a s =
     (let n = nlimbs (bf s a);
          s1 = memset_scratch (2 * n + 2) s;
          s2 = sqr_outer a n 0 s1;
          s3 = extract_loop r n 0 s2;
          s4 = set_nlimbs r n s3;
          s5 = set_sign r (if sign (bf s4 a) \<noteq> 0 then 1 else 0) s4
      in if bf_is_zero r s5 then set_sign r 0 s5 else s5)"

section \<open>Escape test and decimal parsing\<close>

definition bf_escaped :: "ref \<Rightarrow> ref \<Rightarrow> double \<Rightarrow> state \<Rightarrow> bool" where
  "bf_escaped re im threshold s =
     (if nlimbs (bf s re) = 0 then False
      else
        let re_d = bf_to_d re s;
            im_d = bf_to_d im s;
            mag_sq = fadd (fmul re_d re_d) (fmul im_d im_d)
        in threshold < mag_sq)"

text \<open>
  A C string is the list of its characters before the terminating NUL; reading at the end
  of the list reads the NUL, which matches no test of the parser.  The pointer \<^verbatim>\<open>p\<close> is
  the rest of the string.
\<close>

definition is_digit :: "char \<Rightarrow> bool" where
  "is_digit c = (48 \<le> (of_char c :: nat) \<and> (of_char c :: nat) \<le> 57)"

definition digit_val :: "char \<Rightarrow> double" where
  "digit_val c = of_int (of_char c - 48)"

fun skip_spaces :: "string \<Rightarrow> string" where
  "skip_spaces [] = []"
| "skip_spaces (c # cs) = (if c = CHR '' '' then skip_spaces cs else c # cs)"

definition skip_sign :: "string \<Rightarrow> bool \<times> string" where
  "skip_sign p =
     (case p of
        [] \<Rightarrow> (False, [])
      | c # cs \<Rightarrow>
          if c = CHR ''-'' then (True, cs)
          else if c = CHR ''+'' then (False, cs)
          else (False, c # cs))"

fun int_part_loop :: "double \<Rightarrow> string \<Rightarrow> double \<times> string" where
  "int_part_loop int_part [] = (int_part, [])"
| "int_part_loop int_part (c # cs) =
     (if is_digit c then int_part_loop (fadd (fmul int_part 10) (digit_val c)) cs
      else (int_part, c # cs))"

fun frac_loop :: "double \<Rightarrow> double \<Rightarrow> string \<Rightarrow> double" where
  "frac_loop fr frac_scale [] = fr"
| "frac_loop fr frac_scale (c # cs) =
     (if is_digit c
      then frac_loop (fadd fr (fmul (digit_val c) frac_scale))
             (fmul frac_scale (rnd (1 / 10))) cs
      else fr)"

definition frac_part :: "string \<Rightarrow> double" where
  "frac_part p =
     (case p of
        [] \<Rightarrow> 0
      | c # cs \<Rightarrow> if c = CHR ''.'' then frac_loop 0 (rnd (1 / 10)) cs else 0)"

definition bf_from_str :: "ref \<Rightarrow> string \<Rightarrow> nat \<Rightarrow> state \<Rightarrow> state" where
  "bf_from_str r str n s =
     (let s0 = bf_zero r n s;
          (negative, p1) = skip_sign (skip_spaces str);
          (int_part, p2) = int_part_loop 0 p1;
          fr = frac_part p2;
          s1 = bf_set_d r (fadd int_part fr) n s0
      in if negative then set_sign r (- sign (bf s1 r)) s1 else s1)"

section \<open>The Mandelbrot iteration\<close>

text \<open>The doubling loop of \<^verbatim>\<open>mandelbrot_step\<close> over the limbs of the local \<^verbatim>\<open>prod\<close>.\<close>

function double_prod_loop :: "nat \<Rightarrow> dlimb_t \<Rightarrow> state \<Rightarrow> state" where
  "double_prod_loop i carry s =
     (if i < nlimbs (bf s Prod) then
        let val = push_bit 1 (ucast (limb s Prod i) :: dlimb_t) OR carry;
            s1 = set_limb Prod i (ucast val) s
        in double_prod_loop (i + 1) (drop_bit 32 val) s1
      else s)"
  by pat_completeness auto
termination
  by (relation "measure (\<lambda>(i, carry, s). nlimbs (bf s Prod) - i)")
    (auto simp: set_limb_def)

definition mandelbrot_step ::
  "ref \<Rightarrow> ref \<Rightarrow> ref \<Rightarrow> ref \<Rightarrow> ref \<Rightarrow> ref \<Rightarrow> state \<Rightarrow> state" where
  "mandelbrot_step zr zi cr ci tmp1 tmp2 s =
     (let s1 = bf_sqr tmp1 zr s;
          s2 = bf_sqr tmp2 zi s1;
          s3 = bf_mul Prod zr zi s2;
          s4 = double_prod_loop 0 0 s3;
          s5 = bf_add zi Prod ci s4;
          s6 = bf_sub tmp1 tmp1 tmp2 s5
      in bf_add zr tmp1 cr s6)"

function iterate_loop :: "int \<Rightarrow> nat \<Rightarrow> state \<Rightarrow> int \<times> state" where
  "iterate_loop max_iter i s =
     (if int i < max_iter then
        (if bf_escaped Zr Zi 4 s then (int i, s)
         else iterate_loop max_iter (i + 1) (mandelbrot_step Zr Zi Cr Ci Tmp1 Tmp2 s))
      else (max_iter, s))"
  by pat_completeness auto
termination
  by (relation "measure (\<lambda>(max_iter, i, s). nat (max_iter - int i))") auto

text \<open>The entry points set up their locals in the same way; \<^verbatim>\<open>tmp1\<close> and \<^verbatim>\<open>tmp2\<close> get
  their limb count only, their limbs and sign are whatever the stack held.\<close>

definition setup_locals :: "string \<Rightarrow> string \<Rightarrow> nat \<Rightarrow> state \<Rightarrow> state" where
  "setup_locals cr_str ci_str precision_limbs s =
     (let s1 = bf_from_str Cr cr_str precision_limbs s;
          s2 = bf_from_str Ci ci_str precision_limbs s1;
          s3 = bf_zero Zr precision_limbs s2;
          s4 = bf_zero Zi precision_limbs s3;
          s5 = set_nlimbs Tmp1 precision_limbs s4
      in set_nlimbs Tmp2 precision_limbs s5)"

definition mandelbrot_iterate :: "string \<Rightarrow> string \<Rightarrow> int \<Rightarrow> nat \<Rightarrow> state \<Rightarrow> int \<times> state" where
  "mandelbrot_iterate cr_str ci_str max_iter precision_limbs s =
     iterate_loop max_iter 0 (setup_locals cr_str ci_str precision_limbs s)"

section \<open>Reference orbits\<close>

text \<open>The output buffers of \<^verbatim>\<open>compute_reference_orbit\<close>: two arrays of doubles and the
  integer behind \<^verbatim>\<open>escape_iter\<close>.  The caller passes buffers that do not overlap.\<close>

record orbit_bufs =
  orbit_re_out :: "nat \<Rightarrow> double"
  orbit_im_out :: "nat \<Rightarrow> double"
  escape_iter :: int

function orbit_loop :: "int \<Rightarrow> nat \<Rightarrow> orbit_bufs \<Rightarrow> state \<Rightarrow> int \<times> orbit_bufs \<times> state" where
  "orbit_loop max_iter i ob s =
     (if int i < max_iter then
        let s1 = mandelbrot_step Zr Zi Cr Ci Tmp1 Tmp2 s;
            zr_d = bf_to_d Zr s1;
            zi_d = bf_to_d Zi s1;
            ob1 = ob\<lparr>orbit_re_out := (orbit_re_out ob)(i + 1 := zr_d)\<rparr>;
            ob2 = ob1\<lparr>orbit_im_out := (orbit_im_out ob1)(i + 1 := zi_d)\<rparr>;
            mag_sq = fadd (fmul zr_d zr_d) (fmul zi_d zi_d)
        in if 10 ^ 16 < mag_sq then (int i + 1, ob2\<lparr>escape_iter := int i + 1\<rparr>, s1)
           else orbit_loop max_iter (i + 1) ob2 s1
      else (max_iter, ob, s))"
  by pat_completeness auto
termination
  by (relation "measure (\<lambda>(max_iter, i, ob, s). nat (max_iter - int i))") auto

definition compute_reference_orbit ::
  "string \<Rightarrow> string \<Rightarrow> int \<Rightarrow> nat \<Rightarrow> orbit_bufs \<Rightarrow> state \<Rightarrow> int \<times> orbit_bufs \<times> state" where
  "compute_reference_orbit cr_str ci_str max_iter precision_limbs ob s =
     (let s1 = setup_locals cr_str ci_str precision_limbs s;
          ob1 = ob\<lparr>orbit_re_out := (orbit_re_out ob)(0 := 0)\<rparr>;
          ob2 = ob1\<lparr>orbit_im_out := (orbit_im_out ob1)(0 := 0)\<rparr>;
          ob3 = ob2\<lparr>escape_iter := - 1\<rparr>
      in orbit_loop max_iter 0 ob3 s1)"

text \<open>The two additional buffers of \<^verbatim>\<open>compute_reference_orbit_extended\<close>.\<close>

record z2_bufs =
  orbit_z2_re_out :: "nat \<Rightarrow> double"
  orbit_z2_im_out :: "nat \<Rightarrow> double"

function orbit_ext_loop ::
  "int \<Rightarrow> nat \<Rightarrow> orbit_bufs \<Rightarrow> z2_bufs \<Rightarrow> state \<Rightarrow> int \<times> orbit_bufs \<times> z2_bufs \<times> state" where
  "orbit_ext_loop max_iter i ob zb s =
     (if int i < max_iter then
        let s1 = bf_sqr Z2r Zr s;
            s2 = bf_sqr Z2i Zi s1;
            s3 = mandelbrot_step Zr Zi Cr Ci Tmp1 Tmp2 s2;
            zr_d = bf_to_d Zr s3;
            zi_d = bf_to_d Zi s3;
            ob1 = ob\<lparr>orbit_re_out := (orbit_re_out ob)(i + 1 := zr_d)\<rparr>;
            ob2 = ob1\<lparr>orbit_im_out := (orbit_im_out ob1)(i + 1 := zi_d)\<rparr>;
            z2r_d = bf_to_d Z2r s3;
            z2i_d = bf_to_d Z2i s3;
            zb1 = zb\<lparr>orbit_z2_re_out := (orbit_z2_re_out zb)(i + 1 := fsub z2r_d z2i_d)\<rparr>;
            zb2 = zb1\<lparr>orbit_z2_im_out := (orbit_z2_im_out zb1)
                       (i + 1 := fmul (fmul 2 (orbit_re_out ob2 i)) (orbit_im_out ob2 i))\<rparr>;
            mag_sq = fadd (fmul zr_d zr_d) (fmul zi_d zi_d)
        in if 10 ^ 16 < mag_sq then (int i + 1, ob2\<lparr>escape_iter := int i + 1\<rparr>, zb2, s3)
           else orbit_ext_loop max_iter (i + 1) ob2 zb2 s3
      else (max_iter, ob, zb, s))"
  by pat_completeness auto
termination
  by (relation "measure (\<lambda>(max_iter, i, ob, zb, s). nat (max_iter - int i))") auto

definition compute_reference_orbit_extended ::
  "string \<Rightarrow> string \<Rightarrow> int \<Rightarrow> nat \<Rightarrow> orbit_bufs \<Rightarrow> z2_bufs \<Rightarrow> state
     \<Rightarrow> int \<times> orbit_bufs \<times> z2_bufs \<times> state" where
  "compute_reference_orbit_extended cr_str ci_str max_iter precision_limbs ob zb s =
     (let s1 = setup_locals cr_str ci_str precision_limbs s;
          s2 = set_nlimbs Z2r precision_limbs s1;
          s3 = set_nlimbs Z2i precision_limbs s2;
          ob1 = ob\<lparr>orbit_re_out := (orbit_re_out ob)(0 := 0)\<rparr>;
          ob2 = ob1\<lparr>orbit_im_out := (orbit_im_out ob1)(0 := 0)\<rparr>;
          zb1 = zb\<lparr>orbit_z2_re_out := (orbit_z2_re_out zb)(0 := 0)\<rparr>;
          zb2 = zb1\<lparr>orbit_z2_im_out := (orbit_z2_im_out zb1)(0 := 0)\<rparr>;
          ob3 = ob2\<lparr>escape_iter := - 1\<rparr>
      in orbit_ext_loop max_iter 0 ob3 zb2 s3)"

section \<open>Concrete stores\<close>

text \<open>The stores on which the program is evaluated below: \<open>zero_state\<close> holds zero
  everywhere, and \<open>store_obj p xs sg\<close> puts at \<open>p\<close> the value with limbs \<open>xs\<close> (least
  significant first), limb count \<open>length xs\<close> and sign \<open>sg\<close>.\<close>

definition zero_state :: state where
  "zero_state = \<lparr>bf = (\<lambda>p. \<lparr>limbs = (\<lambda>i. 0), nlimbs = 0, sign = 0\<rparr>), scratch = (\<lambda>k. 0)\<rparr>"

definition store_obj :: "ref \<Rightarrow> limb_t list \<Rightarrow> int \<Rightarrow> state \<Rightarrow> state" where
  "store_obj p xs sg s =
     s\<lparr>bf := (bf s)(p := \<lparr>limbs = (\<lambda>i. if i < length xs then xs ! i else 0),
                           nlimbs = length xs, sign = sg\<rparr>)\<rparr>"

section \<open>The numeral a decimal string starts with\<close>

text \<open>
  The specification's words for what \<^verbatim>\<open>bf_from_str\<close> reads: the maximal prefix of the form
  spaces, an optional sign, digits, and optionally a point followed by digits.
  \<open>numeral_form\<close> is that form, and \<open>numeral_prefix\<close> scans a string for its longest
  prefix of that form, segment by segment.
\<close>

definition is_space :: "char \<Rightarrow> bool" where
  "is_space c = (c = CHR '' '')"

definition sign_chars :: "string \<Rightarrow> string" where
  "sign_chars p = (case p of [] \<Rightarrow> [] | c # cs \<Rightarrow> if c = CHR ''-'' \<or> c = CHR ''+'' then [c] else [])"

definition frac_chars :: "string \<Rightarrow> string" where
  "frac_chars p = (case p of [] \<Rightarrow> [] | c # cs \<Rightarrow> if c = CHR ''.'' then c # takeWhile is_digit cs else [])"

definition digits_frac :: "string \<Rightarrow> string" where
  "digits_frac p = takeWhile is_digit p @ frac_chars (dropWhile is_digit p)"

definition signed_chars :: "string \<Rightarrow> string" where
  "signed_chars p = sign_chars p @ digits_frac (drop (length (sign_chars p)) p)"

definition numeral_prefix :: "string \<Rightarrow> string" where
  "numeral_prefix str = takeWhile is_space str @ signed_chars (dropWhile is_space str)"

definition numeral_form :: "string \<Rightarrow> bool" where
  "numeral_form p \<longleftrightarrow>
     (\<exists>sp sg ds fr. p = sp @ sg @ ds @ fr \<and> list_all is_space sp \<and>
        (sg = [] \<or> sg = ''+'' \<or> sg = ''-'') \<and> list_all is_digit ds \<and>
        (fr = [] \<or> (\<exists>fs. fr = CHR ''.'' # fs \<and> list_all is_digit fs)))"

text \<open>What the parser reads of a string: the sign flag, the integer part and the fraction.\<close>

definition parsed :: "string \<Rightarrow> bool \<times> double \<times> double" where
  "parsed str =
     (let (negative, p1) = skip_sign (skip_spaces str);
          (int_part, p2) = int_part_loop 0 p1
      in (negative, int_part, frac_part p2))"

section \<open>The sequence of iterates\<close>

text \<open>
  The bodies of the three loops as state transformers: \<open>z_step\<close> is the call
  \<^verbatim>\<open>mandelbrot_step(&zr, &zi, &cr, &ci, &tmp1, &tmp2)\<close>, \<open>z_state \<dots> k\<close> the state after
  \<open>k\<close> such steps from the set-up of the locals, \<open>orbit_escaped\<close> the test
  \<^verbatim>\<open>mag_sq > 1e16\<close> of the orbit loops, and \<open>record_z\<close> the two stores into the orbit
  arrays.  The extended loop squares \<open>zr\<close> and \<open>zi\<close> into \<open>z2r\<close> and \<open>z2i\<close> before each
  step (\<open>squares\<close>, \<open>x_step\<close>, \<open>x_state\<close>) and stores two more values (\<open>record_z2\<close>).
  \<open>origin_signs\<close> holds when \<open>z\<close> and \<open>c\<close> have sign 0, and \<open>garbage_bufs\<close>,
  \<open>garbage_z2\<close> are output buffers with arbitrary contents.
\<close>

definition z_step :: "state \<Rightarrow> state" where
  "z_step = mandelbrot_step Zr Zi Cr Ci Tmp1 Tmp2"

definition z_state :: "string \<Rightarrow> string \<Rightarrow> nat \<Rightarrow> state \<Rightarrow> nat \<Rightarrow> state" where
  "z_state cr_str ci_str n s k = (z_step ^^ k) (setup_locals cr_str ci_str n s)"

definition origin_signs :: "state \<Rightarrow> bool" where
  "origin_signs s \<longleftrightarrow>
     sign (bf s Zr) = 0 \<and> sign (bf s Zi) = 0 \<and> sign (bf s Cr) = 0 \<and> sign (bf s Ci) = 0"

definition orbit_escaped :: "state \<Rightarrow> bool" where
  "orbit_escaped s \<longleftrightarrow>
     10 ^ 16 < fadd (fmul (bf_to_d Zr s) (bf_to_d Zr s)) (fmul (bf_to_d Zi s) (bf_to_d Zi s))"

definition record_z :: "nat \<Rightarrow> state \<Rightarrow> orbit_bufs \<Rightarrow> orbit_bufs" where
  "record_z k s ob = ob\<lparr>orbit_re_out := (orbit_re_out ob)(k := bf_to_d Zr s),
                        orbit_im_out := (orbit_im_out ob)(k := bf_to_d Zi s)\<rparr>"

definition garbage_bufs :: orbit_bufs where
  "garbage_bufs = \<lparr>orbit_re_out = (\<lambda>k. 7), orbit_im_out = (\<lambda>k. 7), escape_iter = 5\<rparr>"

definition squares :: "state \<Rightarrow> state" where
  "squares s = bf_sqr Z2i Zi (bf_sqr Z2r Zr s)"

definition x_step :: "state \<Rightarrow> state" where
  "x_step s = z_step (squares s)"

definition x_state :: "string \<Rightarrow> string \<Rightarrow> nat \<Rightarrow> state \<Rightarrow> nat \<Rightarrow> state" where
  "x_state cr_str ci_str n s k =
     (x_step ^^ k) (set_nlimbs Z2i n (set_nlimbs Z2r n (setup_locals cr_str ci_str n s)))"

definition record_z2 :: "nat \<Rightarrow> state \<Rightarrow> orbit_bufs \<Rightarrow> z2_bufs \<Rightarrow> z2_bufs" where
  "record_z2 i s ob zb =
     zb\<lparr>orbit_z2_re_out := (orbit_z2_re_out zb)(i + 1 := fsub (bf_to_d Z2r s) (bf_to_d Z2i s)),
        orbit_z2_im_out := (orbit_z2_im_out zb)
          (i + 1 := fmul (fmul 2 (orbit_re_out ob i)) (orbit_im_out ob i))\<rparr>"

definition garbage_z2 :: z2_bufs where
  "garbage_z2 = \<lparr>orbit_z2_re_out = (\<lambda>k. 7), orbit_z2_im_out = (\<lambda>k. 7)\<rparr>"

section \<open>The magnitude as a number\<close>

text \<open>
  The active limbs of a value, least significant first, are the digits of a natural number
  in base \<open>2 ^ 32\<close>: \<open>mag s p n\<close> is the number the first \<open>n\<close> limbs of the object at
  \<open>p\<close> denote, and \<open>limbs_from f i k\<close> the number the \<open>k\<close> limbs \<open>f i, \<dots>, f (i + k - 1)\<close>
  denote.
\<close>

definition mag :: "state \<Rightarrow> ref \<Rightarrow> nat \<Rightarrow> nat" where
  "mag s p n = (\<Sum>i<n. unat (limb s p i) * 2 ^ (32 * i))"

fun limbs_from :: "(nat \<Rightarrow> limb_t) \<Rightarrow> nat \<Rightarrow> nat \<Rightarrow> nat" where
  "limbs_from f i 0 = 0"
| "limbs_from f i (Suc k) = unat (f i) + 2 ^ 32 * limbs_from f (Suc i) k"

section \<open>The fixed-point product in the specification's words\<close>

text \<open>
  The product of two magnitudes \<open>A\<close> and \<open>B\<close> of \<open>n\<close> limbs has \<open>2 * n\<close> limbs.  The
  specification takes from it a window of \<open>n\<close> limbs: the upper \<open>n\<close> limbs, shifted right
  by 4 bits, that is the bits from position \<open>32 * n - 4\<close> on.  For the sign it gives the
  XOR of the operand signs unless an operand is zero: \<open>xor_sign\<close>.
\<close>

definition fixed_point_product :: "nat \<Rightarrow> nat \<Rightarrow> nat \<Rightarrow> nat" where
  "fixed_point_product n A B = A * B div 2 ^ (32 * n - 4) mod 2 ^ (32 * n)"

definition xor_sign :: "int \<Rightarrow> int \<Rightarrow> int" where
  "xor_sign sa sb = (if sa = 0 \<or> sb = 0 then 0 else if sa = sb then 1 else - 1)"

section \<open>Reading the store after a write\<close>

declare add_mag_loop.simps [simp del] sub_mag_loop.simps [simp del]
  is_zero_loop.simps [simp del] mul_inner.simps [simp del] mul_outer.simps [simp del]
  extract_loop.simps [simp del] sqr_carry_loop.simps [simp del] sqr_inner.simps [simp del]
  sqr_outer.simps [simp del] double_prod_loop.simps [simp del] iterate_loop.simps [simp del]
  orbit_loop.simps [simp del] orbit_ext_loop.simps [simp del]

lemma limb_set_limb [simp]:
  "limb (set_limb p i v s) q j = (if q = p \<and> j = i then v else limb s q j)"
  by (simp add: limb_def set_limb_def)

lemma nlimbs_set_limb [simp]: "nlimbs (bf (set_limb p i v s) q) = nlimbs (bf s q)"
  by (simp add: set_limb_def)

lemma sign_set_limb [simp]: "sign (bf (set_limb p i v s) q) = sign (bf s q)"
  by (simp add: set_limb_def)

lemma scratch_set_limb [simp]: "scratch (set_limb p i v s) = scratch s"
  by (simp add: set_limb_def)

lemma bf_set_limb_other [simp]: "q \<noteq> p \<Longrightarrow> bf (set_limb p i v s) q = bf s q"
  by (simp add: set_limb_def)

lemma limb_set_nlimbs [simp]: "limb (set_nlimbs p n s) q j = limb s q j"
  by (simp add: limb_def set_nlimbs_def)

lemma nlimbs_set_nlimbs [simp]:
  "nlimbs (bf (set_nlimbs p n s) q) = (if q = p then n else nlimbs (bf s q))"
  by (simp add: set_nlimbs_def)

lemma sign_set_nlimbs [simp]: "sign (bf (set_nlimbs p n s) q) = sign (bf s q)"
  by (simp add: set_nlimbs_def)

lemma scratch_set_nlimbs [simp]: "scratch (set_nlimbs p n s) = scratch s"
  by (simp add: set_nlimbs_def)

lemma bf_set_nlimbs_other [simp]: "q \<noteq> p \<Longrightarrow> bf (set_nlimbs p n s) q = bf s q"
  by (simp add: set_nlimbs_def)

lemma limb_set_sign [simp]: "limb (set_sign p v s) q j = limb s q j"
  by (simp add: limb_def set_sign_def)

lemma nlimbs_set_sign [simp]: "nlimbs (bf (set_sign p v s) q) = nlimbs (bf s q)"
  by (simp add: set_sign_def)

lemma sign_set_sign [simp]:
  "sign (bf (set_sign p v s) q) = (if q = p then v else sign (bf s q))"
  by (simp add: set_sign_def)

lemma scratch_set_sign [simp]: "scratch (set_sign p v s) = scratch s"
  by (simp add: set_sign_def)

lemma bf_set_sign_other [simp]: "q \<noteq> p \<Longrightarrow> bf (set_sign p v s) q = bf s q"
  by (simp add: set_sign_def)

lemma bf_set_scratch [simp]: "bf (set_scratch k v s) = bf s"
  by (simp add: set_scratch_def)

lemma limb_set_scratch [simp]: "limb (set_scratch k v s) q j = limb s q j"
  by (simp add: limb_def)

lemma scratch_set_scratch [simp]:
  "scratch (set_scratch k v s) j = (if j = k then v else scratch s j)"
  by (simp add: set_scratch_def)

lemma limb_memset_limbs [simp]:
  "limb (memset_limbs p n s) q j = (if q = p \<and> j < n then 0 else limb s q j)"
  by (simp add: limb_def memset_limbs_def)

lemma nlimbs_memset_limbs [simp]: "nlimbs (bf (memset_limbs p n s) q) = nlimbs (bf s q)"
  by (simp add: memset_limbs_def)

lemma sign_memset_limbs [simp]: "sign (bf (memset_limbs p n s) q) = sign (bf s q)"
  by (simp add: memset_limbs_def)

lemma scratch_memset_limbs [simp]: "scratch (memset_limbs p n s) = scratch s"
  by (simp add: memset_limbs_def)

lemma bf_memset_limbs_other [simp]: "q \<noteq> p \<Longrightarrow> bf (memset_limbs p n s) q = bf s q"
  by (simp add: memset_limbs_def)

lemma limb_memcpy_limbs [simp]:
  "limb (memcpy_limbs r a n s) q j = (if q = r \<and> j < n then limb s a j else limb s q j)"
  by (simp add: limb_def memcpy_limbs_def)

lemma nlimbs_memcpy_limbs [simp]: "nlimbs (bf (memcpy_limbs r a n s) q) = nlimbs (bf s q)"
  by (simp add: memcpy_limbs_def)

lemma sign_memcpy_limbs [simp]: "sign (bf (memcpy_limbs r a n s) q) = sign (bf s q)"
  by (simp add: memcpy_limbs_def)

lemma scratch_memcpy_limbs [simp]: "scratch (memcpy_limbs r a n s) = scratch s"
  by (simp add: memcpy_limbs_def)

lemma bf_memcpy_limbs_other [simp]: "q \<noteq> r \<Longrightarrow> bf (memcpy_limbs r a n s) q = bf s q"
  by (simp add: memcpy_limbs_def)

lemma bf_memset_scratch [simp]: "bf (memset_scratch n s) = bf s"
  by (simp add: memset_scratch_def)

lemma limb_memset_scratch [simp]: "limb (memset_scratch n s) q j = limb s q j"
  by (simp add: limb_def)

lemma scratch_memset_scratch [simp]:
  "scratch (memset_scratch n s) k = (if k < n then 0 else scratch s k)"
  by (simp add: memset_scratch_def)

section \<open>Frame lemmas: what an operation leaves alone\<close>

lemma bf_zero_other [simp]: "q \<noteq> r \<Longrightarrow> bf (bf_zero r n s) q = bf s q"
  by (simp add: bf_zero_def)

lemma bf_copy_other [simp]: "q \<noteq> r \<Longrightarrow> bf (bf_copy r a s) q = bf s q"
  by (simp add: bf_copy_def Let_def)

lemma add_mag_loop_other: "q \<noteq> r \<Longrightarrow> bf (add_mag_loop r a b n i c s) q = bf s q"
proof (induction r a b n i c s rule: add_mag_loop.induct)
  case (1 r a b n i carry s)
  then show ?case
    by (subst add_mag_loop.simps) (simp add: Let_def)
qed

lemma sub_mag_loop_other: "q \<noteq> r \<Longrightarrow> bf (sub_mag_loop r a b n i c s) q = bf s q"
proof (induction r a b n i c s rule: sub_mag_loop.induct)
  case (1 r a b n i borrow s)
  then show ?case
    by (subst sub_mag_loop.simps) (simp add: Let_def)
qed

lemma mul_inner_bf: "bf (snd (mul_inner a b n i j c s)) = bf s"
proof (induction a b n i j c s rule: mul_inner.induct)
  case (1 a b n i j carry s)
  then show ?case
    by (subst mul_inner.simps) (simp add: Let_def)
qed

lemma mul_outer_bf: "bf (mul_outer a b n i s) = bf s"
proof (induction a b n i s rule: mul_outer.induct)
  case (1 a b n i s)
  show ?case
  proof (cases "i < n")
    case True
    obtain c s1 where m: "mul_inner a b n i 0 0 s = (c, s1)"
      by fastforce
    have "bf s1 = bf s"
      using mul_inner_bf [of a b n i 0 0 s] m by simp
    with 1 [OF True refl m [symmetric] refl] True m show ?thesis
      by (subst mul_outer.simps) simp
  next
    case False
    then show ?thesis
      by (subst mul_outer.simps) simp
  qed
qed

lemma extract_loop_other: "q \<noteq> r \<Longrightarrow> bf (extract_loop r n i s) q = bf s q"
proof (induction r n i s rule: extract_loop.induct)
  case (1 r n i s)
  then show ?case
    by (subst extract_loop.simps) (simp add: Let_def)
qed

lemma extract_loop_nlimbs: "nlimbs (bf (extract_loop r n i s) q) = nlimbs (bf s q)"
proof (induction r n i s rule: extract_loop.induct)
  case (1 r n i s)
  then show ?case
    by (subst extract_loop.simps) (simp add: Let_def)
qed

lemma extract_loop_sign: "sign (bf (extract_loop r n i s) q) = sign (bf s q)"
proof (induction r n i s rule: extract_loop.induct)
  case (1 r n i s)
  then show ?case
    by (subst extract_loop.simps) (simp add: Let_def)
qed

lemma sqr_carry_loop_bf: "bf (sqr_carry_loop n k c s) = bf s"
proof (induction n k c s rule: sqr_carry_loop.induct)
  case (1 n k carry s)
  then show ?case
    by (subst sqr_carry_loop.simps) (simp add: Let_def)
qed

lemma sqr_inner_bf: "bf (sqr_inner a n i j s) = bf s"
proof (induction a n i j s rule: sqr_inner.induct)
  case (1 a n i j s)
  then show ?case
    by (subst sqr_inner.simps) (simp add: Let_def sqr_carry_loop_bf)
qed

lemma sqr_outer_bf: "bf (sqr_outer a n i s) = bf s"
proof (induction a n i s rule: sqr_outer.induct)
  case (1 a n i s)
  then show ?case
    by (subst sqr_outer.simps) (simp add: Let_def sqr_inner_bf)
qed

lemma bf_add_mag_other: "q \<noteq> r \<Longrightarrow> bf (bf_add_mag r a b s) q = bf s q"
  by (simp add: bf_add_mag_def add_mag_loop_other)

lemma bf_sub_mag_other: "q \<noteq> r \<Longrightarrow> bf (bf_sub_mag r a b s) q = bf s q"
  by (simp add: bf_sub_mag_def sub_mag_loop_other)

lemma bf_add_other: "q \<noteq> r \<Longrightarrow> bf (bf_add r a b s) q = bf s q"
  by (simp add: bf_add_def Let_def bf_add_mag_other bf_sub_mag_other)

lemma bf_sub_other: "q \<noteq> r \<Longrightarrow> q \<noteq> Neg_b \<Longrightarrow> bf (bf_sub r a b s) q = bf s q"
  by (simp add: bf_sub_def Let_def bf_add_other)

lemma bf_mul_schoolbook_other: "q \<noteq> r \<Longrightarrow> bf (bf_mul_schoolbook r a b s) q = bf s q"
  by (simp add: bf_mul_schoolbook_def Let_def extract_loop_other mul_outer_bf)

lemma bf_mul_other: "q \<noteq> r \<Longrightarrow> bf (bf_mul r a b s) q = bf s q"
  by (simp add: bf_mul_def bf_mul_karatsuba_def bf_mul_schoolbook_other)

lemma bf_sqr_other: "q \<noteq> r \<Longrightarrow> bf (bf_sqr r a s) q = bf s q"
  by (simp add: bf_sqr_def Let_def extract_loop_other sqr_outer_bf)

section \<open>The frame of the operations, and squaring against multiplication\<close>

text \<open>
  C10.  When the output \<open>r\<close> is distinct from both inputs, \<^verbatim>\<open>bf_add\<close>, \<^verbatim>\<open>bf_sub\<close>,
  \<^verbatim>\<open>bf_mul\<close> and \<^verbatim>\<open>bf_sqr\<close> leave every input operand as it was: the limbs (all of
  them, not only the active ones), the limb count and the sign.  \<^verbatim>\<open>bf_sub\<close> negates its
  local copy \<open>Neg_b\<close>, never \<open>b\<close> itself; the operands are objects of the caller, so
  neither is that local.
\<close>

theorem operands_unchanged:
  assumes "r \<noteq> a" and "r \<noteq> b" and "a \<noteq> Neg_b" and "b \<noteq> Neg_b"
  shows "bf (bf_add r a b s) a = bf s a \<and> bf (bf_add r a b s) b = bf s b \<and>
         bf (bf_sub r a b s) a = bf s a \<and> bf (bf_sub r a b s) b = bf s b \<and>
         bf (bf_mul r a b s) a = bf s a \<and> bf (bf_mul r a b s) b = bf s b \<and>
         bf (bf_sqr r a s) a = bf s a"
  using assms
  by (simp add: bf_add_other bf_sub_other bf_mul_other bf_sqr_other)

theorem operands_unchanged_witness:
  "(let s = store_obj (Obj 0) [5, 7] 1 (store_obj (Obj 1) [9, 3] (- 1) zero_state);
        r = Obj 2; a = Obj 0; b = Obj 1
    in r \<noteq> a \<and> r \<noteq> b \<and> a \<noteq> Neg_b \<and> b \<noteq> Neg_b \<and>
       bf (bf_add r a b s) a = bf s a \<and> bf (bf_add r a b s) b = bf s b \<and>
       bf (bf_sub r a b s) a = bf s a \<and> bf (bf_sub r a b s) b = bf s b \<and>
       bf (bf_mul r a b s) a = bf s a \<and> bf (bf_mul r a b s) b = bf s b \<and>
       bf (bf_sqr r a s) a = bf s a \<and>
       sign (bf (bf_sub r a b s) b) = - 1 \<and> sign (bf (bf_sub r a b s) r) = 1)"
proof -
  define s where "s = store_obj (Obj 0) [5, 7] 1 (store_obj (Obj 1) [9, 3] (- 1) zero_state)"
  have d: "Obj 2 \<noteq> Obj 0" "Obj 2 \<noteq> Obj 1" "Obj 0 \<noteq> Neg_b" "Obj 1 \<noteq> Neg_b"
    by simp_all
  have "sign (bf (bf_sub (Obj 2) (Obj 0) (Obj 1) s) (Obj 1)) = - 1"
    unfolding s_def by code_simp
  moreover have "sign (bf (bf_sub (Obj 2) (Obj 0) (Obj 1) s) (Obj 2)) = 1"
    unfolding s_def by code_simp
  ultimately show ?thesis
    unfolding Let_def s_def [symmetric]
    using operands_unchanged [OF d, of s] d by simp
qed

text \<open>
  C3.  \<^verbatim>\<open>bf_sqr\<close> differs from \<^verbatim>\<open>bf_mul\<close> of a value with itself already for two limbs.
  For \<open>a\<close> with limbs \<open>0xFFFFFFFF, 1\<close> (least significant first) and sign \<open>1\<close>, limb 0 of the
  square is \<open>0x2F\<close> and limb 0 of the product is \<open>0x3F\<close>: the addition
  \<^verbatim>\<open>scratch[i + j] + (limb_t)prod\<close> of the off-diagonal term is a 32-bit addition, and its
  carry into \<^verbatim>\<open>scratch[2]\<close> is lost.
\<close>

theorem bf_sqr_loses_carry:
  "(let s = store_obj (Obj 0) [0xFFFFFFFF, 1] 1 zero_state;
        sq = bf_sqr (Obj 1) (Obj 0) s;
        mu = bf_mul (Obj 1) (Obj 0) (Obj 0) s
    in map (limb sq (Obj 1)) [0, 1] = [0x2F, 0] \<and> map (limb mu (Obj 1)) [0, 1] = [0x3F, 0] \<and>
       map (scratch sq) [0, 1, 2, 3] = [1, 0xFFFFFFFC, 2, 0] \<and>
       map (scratch mu) [0, 1, 2, 3] = [1, 0xFFFFFFFC, 3, 0] \<and>
       nlimbs (bf sq (Obj 1)) = 2 \<and> nlimbs (bf mu (Obj 1)) = 2 \<and>
       sign (bf sq (Obj 1)) = 1 \<and> sign (bf mu (Obj 1)) = 1)"
  by code_simp

section \<open>Rounding is exact on representable values\<close>

lemma round_half_even_of_int [simp]: "round_half_even (of_int k) = k"
  by (simp add: round_half_even_def)

lemma rnd_0 [simp]: "rnd 0 = 0"
  by (simp add: rnd_def)

lemma rnd_exact_pos:
  assumes m: "0 < m" "m < 2 ^ 53" and e: "- 1074 \<le> e"
  shows "rnd (of_int m * 2 powi e) = of_int m * 2 powi e"
proof -
  define x :: rat where "x = of_int m * 2 powi e"
  have xpos: "0 < x"
    using m by (simp add: x_def zero_less_mult_iff)
  have "x * 2 ^ 1074 = of_int m * (2 powi e * 2 powi 1074)"
    by (simp add: x_def)
  also have "2 powi e * 2 powi 1074 = (2::rat) powi (e + 1074)"
    by (simp add: power_int_add)
  also have "\<dots> = 2 ^ nat (e + 1074)"
    using e by (simp add: power_int_def)
  finally have "x * 2 ^ 1074 = of_int (m * 2 ^ nat (e + 1074))"
    by simp
  then have N: "\<lfloor>\<bar>x\<bar> * 2 ^ 1074\<rfloor> = m * 2 ^ nat (e + 1074)"
    using xpos by (simp only: abs_of_pos floor_of_int)
  have bl: "bitlen (m * 2 ^ nat (e + 1074)) = bitlen m + (e + 1074)"
    using m e by simp
  have b53: "bitlen m \<le> 53"
    using m by (simp add: bitlen_le_iff_power)
  define E where "E = max (- 1074) (bitlen m + (e + 1074) - 1127)"
  have E: "E \<le> e"
    using b53 e by (simp add: E_def)
  have "x / 2 powi E = of_int m * (2 powi e / 2 powi E)"
    by (simp add: x_def)
  also have "2 powi e / 2 powi E = (2::rat) powi (e - E)"
    by (simp add: power_int_diff)
  also have "\<dots> = 2 ^ nat (e - E)"
    using E by (simp add: power_int_def)
  finally have q: "x / 2 powi E = of_int (m * 2 ^ nat (e - E))"
    by simp
  have "rnd x = sgn x * of_int (round_half_even (\<bar>x\<bar> / 2 powi E)) * 2 powi E"
    unfolding rnd_def Let_def N bl E_def ..
  also have "\<dots> = of_int (round_half_even (x / 2 powi E)) * 2 powi E"
    using xpos by simp
  also have "\<dots> = x / 2 powi E * 2 powi E"
    by (simp only: q round_half_even_of_int)
  also have "\<dots> = x"
    by simp
  finally show ?thesis
    by (simp add: x_def)
qed

lemma rnd_minus: "rnd (- x) = - rnd x"
  by (simp add: rnd_def Let_def)

lemma rnd_exact:
  assumes "\<bar>m\<bar> < 2 ^ 53" and "- 1074 \<le> e"
  shows "rnd (of_int m * 2 powi e) = of_int m * 2 powi e"
proof -
  consider "m = 0" | "0 < m" | "m < 0" by linarith
  then show ?thesis
  proof cases
    case 1
    then show ?thesis by simp
  next
    case 2
    with assms show ?thesis by (intro rnd_exact_pos) simp_all
  next
    case 3
    with assms have "rnd (of_int (- m) * 2 powi e) = of_int (- m) * 2 powi e"
      by (intro rnd_exact_pos) simp_all
    then show ?thesis
      using rnd_minus [of "of_int m * 2 powi e"] by simp
  qed
qed

lemma rnd_of_int: "\<bar>m\<bar> < 2 ^ 53 \<Longrightarrow> rnd (of_int m) = of_int m"
  using rnd_exact [of m 0] by simp

lemma rnd_div_pow2:
  assumes "\<bar>m\<bar> < 2 ^ 53" and "k \<le> 1074"
  shows "rnd (of_int m / 2 ^ k) = of_int m / 2 ^ k"
proof -
  have "(2::rat) powi (- int k) = 1 / 2 ^ k"
    by (simp add: power_int_def inverse_eq_divide power_one_over)
  then show ?thesis
    using rnd_exact [of m "- int k"] assms by simp
qed

section \<open>The top limb as a word\<close>

lemma limb_zero_state [simp]: "limb zero_state p i = 0"
  by (simp add: limb_def zero_state_def)

lemma top_limb_word:
  "push_bit 28 (word_of_int (a div 2 ^ 28)) OR drop_bit 4 (word_of_int (16 * (a mod 2 ^ 28)))
     = (word_of_int a :: limb_t)"
proof -
  have "push_bit 28 (word_of_int (drop_bit 28 a)) OR
        drop_bit 4 (word_of_int (push_bit 4 (take_bit 28 a))) = (word_of_int a :: limb_t)"
    by (rule bit_word_eqI) (auto simp add: bit_simps)
  then show ?thesis
    by (simp only: drop_bit_eq_div take_bit_eq_mod push_bit_eq_mult mult.commute [of _ "2 ^ 4"])
      simp
qed

lemma uint_top_nibble:
  assumes "0 \<le> a" "a < 2 ^ 32"
  shows "uint (drop_bit 28 (word_of_int a :: limb_t)) = a div 2 ^ 28"
proof -
  have "uint (word_of_int a :: limb_t) = a"
    using assms by (simp add: uint_word_of_int take_bit_eq_mod)
  then show ?thesis
    by (simp add: drop_bit_eq_div uint_div_distrib)
qed

lemma uint_low_28:
  assumes "0 \<le> a" "a < 2 ^ 32"
  shows "uint ((word_of_int a :: limb_t) AND 0x0FFFFFFF) = a mod 2 ^ 28"
proof -
  have u: "uint (word_of_int a :: limb_t) = a"
    using assms by (simp add: uint_word_of_int take_bit_eq_mod)
  have "(0x0FFFFFFF :: limb_t) = mask 28"
    by (simp add: mask_eq_exp_minus_1)
  then have "(word_of_int a :: limb_t) AND 0x0FFFFFFF = take_bit 28 (word_of_int a)"
    by (simp only: take_bit_eq_mask)
  then show ?thesis
    using u by (simp add: take_bit_eq_mod uint_mod_distrib)
qed

section \<open>Conversion from and to double\<close>

lemma set_d_loop_zero [simp]: "set_d_loop r n k 0 s = s"
  by (cases k) simp_all

lemma to_d_loop_zero_limbs:
  assumes "rnd res = res"
  shows "k < n \<Longrightarrow> (\<forall>j<k. limb s a j = 0) \<Longrightarrow> to_d_loop a n k res scale s = res"
proof (induction k arbitrary: scale)
  case 0
  show ?case by simp
next
  case (Suc k)
  then have "limb s a k = 0" and "Suc k \<noteq> n"
    by simp_all
  with Suc assms show ?case
    by (simp add: Let_def fadd_def fmul_def double_of_limb_def)
qed

lemma uint_word_of_int_small:
  "0 \<le> a \<Longrightarrow> a < 2 ^ 32 \<Longrightarrow> uint (word_of_int a :: limb_t) = a"
  by (simp add: uint_word_of_int take_bit_eq_mod)

lemma frac_residual:
  fixes a :: int
  shows "(of_int a :: rat) / 2 ^ 28 - of_int (a div 2 ^ 28) = of_int (a mod 2 ^ 28) / 2 ^ 28"
proof -
  have "a = a div 2 ^ 28 * 2 ^ 28 + a mod 2 ^ 28"
    by simp
  then have "(of_int a :: rat) = of_int (a div 2 ^ 28) * 2 ^ 28 + of_int (a mod 2 ^ 28)"
    by (metis of_int_add of_int_mult of_int_numeral of_int_power)
  then show ?thesis
    by (simp add: field_simps)
qed

lemma set_d_loop_top:
  fixes f :: int and r :: ref and m :: nat and s :: state
  assumes f: "0 \<le> f" "f < 2 ^ 28"
  defines "s' \<equiv> set_d_loop r (Suc m) (Suc m) (of_int f / 2 ^ 28) s"
  shows "limb s' r m = limb s r m OR drop_bit 4 (word_of_int (16 * f))"
    and "j \<noteq> m \<Longrightarrow> limb s' r j = limb s r j"
    and "nlimbs (bf s' r) = nlimbs (bf s r)"
    and "sign (bf s' r) = sign (bf s r)"
proof -
  have r16: "rnd (of_int (16 * f)) = of_int (16 * f)"
    using f by (intro rnd_of_int) simp
  have m16: "(of_int f :: rat) / 2 ^ 28 * 2 ^ 32 = of_int (16 * f)"
    by simp
  have u16: "uint (word_of_int (16 * f) :: limb_t) = 16 * f"
    using f by (intro uint_word_of_int_small) simp_all
  have pos: "0 \<le> (of_int (16 * f) :: rat)"
    using f by simp
  have d1: "fmul (of_int f / 2 ^ 28) (2 ^ 32) = of_int (16 * f)"
    by (simp only: fmul_def m16 r16)
  have l: "limb_of_double (of_int (16 * f)) = word_of_int (16 * f)"
    using pos by (simp only: limb_of_double_def int_of_double_def if_True floor_of_int)
  have d2: "fsub (of_int (16 * f)) (double_of_limb (word_of_int (16 * f))) = 0"
    by (simp only: fsub_def double_of_limb_def u16) simp
  have step: "0 < f \<Longrightarrow>
      s' = set_limb r m (limb s r m OR drop_bit 4 (word_of_int (16 * f))) s"
    unfolding s'_def set_d_loop.simps Let_def d1 l d2 set_d_loop_zero
    by simp
  have stop: "f = 0 \<Longrightarrow> s' = s"
    unfolding s'_def by simp
  show "limb s' r m = limb s r m OR drop_bit 4 (word_of_int (16 * f))"
    using step stop f by (cases "f = 0") simp_all
  show "j \<noteq> m \<Longrightarrow> limb s' r j = limb s r j"
    using step stop f by (cases "f = 0") simp_all
  show "nlimbs (bf s' r) = nlimbs (bf s r)"
    using step stop f by (cases "f = 0") simp_all
  show "sign (bf s' r) = sign (bf s r)"
    using step stop f by (cases "f = 0") simp_all
qed

lemma bf_set_d_multiple:
  fixes a :: int and r :: ref and d :: double and n :: nat and s :: state
  assumes a: "0 < a" "a < 2 ^ 32" and n: "0 < n"
    and d: "d = of_int a / 2 ^ 28 \<or> d = - (of_int a / 2 ^ 28)"
  defines "s' \<equiv> bf_set_d r d n s"
  shows "limb s' r (n - 1) = word_of_int a"
    and "j < n - 1 \<Longrightarrow> limb s' r j = 0"
    and "nlimbs (bf s' r) = n"
    and "sign (bf s' r) = (if d < 0 then - 1 else 1)"
proof -
  obtain m where m: "n = Suc m"
    using n by (cases n) simp_all
  define d1 :: rat where "d1 = of_int a / 2 ^ 28"
  have d1pos: "0 < d1"
    using a by (simp add: d1_def)
  have abs: "(if d < 0 then - d else d) = d1" and dnz: "d \<noteq> 0"
    using d d1pos by (auto simp: d1_def)
  define f where "f = a mod 2 ^ 28"
  have f: "0 \<le> f" "f < 2 ^ 28"
    by (simp_all add: f_def)
  have ip: "int_of_double d1 = a div 2 ^ 28"
    using d1pos floor_divide_of_int_eq [of a "2 ^ 28", where ?'a = rat]
    by (simp add: int_of_double_def d1_def)
  have "fsub d1 (of_int (a div 2 ^ 28)) = rnd (of_int f / 2 ^ 28)"
    by (simp only: fsub_def d1_def frac_residual f_def)
  also have "\<dots> = of_int f / 2 ^ 28"
    using f by (intro rnd_div_pow2) simp_all
  finally have res: "fsub d1 (of_int (a div 2 ^ 28)) = of_int f / 2 ^ 28" .
  define s2 where "s2 = set_limb r m (push_bit 28 (word_of_int (a div 2 ^ 28)))
    (set_sign r (if d < 0 then - 1 else 1) (bf_zero r n s))"
  have s': "s' = set_d_loop r (Suc m) (Suc m) (of_int f / 2 ^ 28) s2"
    unfolding s'_def bf_set_d_def Let_def abs ip res s2_def
    using dnz m by simp
  have top: "limb s2 r m OR drop_bit 4 (word_of_int (16 * f)) = word_of_int a"
    using top_limb_word [of a] by (simp add: s2_def f_def)
  show "limb s' r (n - 1) = word_of_int a"
    using set_d_loop_top(1) [OF f, where r = r and m = m and s = s2] top by (simp add: s' m)
  show "j < n - 1 \<Longrightarrow> limb s' r j = 0"
    using set_d_loop_top(2) [OF f, where r = r and m = m and s = s2 and j = j]
    by (simp add: s' m s2_def bf_zero_def)
  show "nlimbs (bf s' r) = n"
    using set_d_loop_top(3) [OF f, where r = r and m = m and s = s2]
    by (simp add: s' s2_def bf_zero_def)
  show "sign (bf s' r) = (if d < 0 then - 1 else 1)"
    using set_d_loop_top(4) [OF f, where r = r and m = m and s = s2]
    by (simp add: s' s2_def bf_zero_def)
qed

lemma bf_to_d_multiple:
  fixes a :: int
  assumes a: "0 < a" "a < 2 ^ 32" and n: "0 < n"
    and top: "limb s r (n - 1) = word_of_int a"
    and low: "\<And>j. j < n - 1 \<Longrightarrow> limb s r j = 0"
    and nl: "nlimbs (bf s r) = n"
    and sg: "sign (bf s r) \<noteq> 0"
  shows "bf_to_d r s = (if sign (bf s r) < 0 then - (of_int a / 2 ^ 28) else of_int a / 2 ^ 28)"
proof -
  obtain m where m: "n = Suc m"
    using n by (cases n) simp_all
  have a0: "0 \<le> a" using a by simp
  define f where "f = a mod 2 ^ 28"
  have f: "0 \<le> f" "f < 2 ^ 28"
    by (simp_all add: f_def)
  have rf: "rnd (of_int f / 2 ^ 28) = of_int f / 2 ^ 28"
    using f by (intro rnd_div_pow2) simp_all
  have ra: "rnd (of_int a / 2 ^ 28) = of_int a / 2 ^ 28"
    using a by (intro rnd_div_pow2) simp_all
  have sum: "(of_int (a div 2 ^ 28) :: rat) + of_int f / 2 ^ 28 = of_int a / 2 ^ 28"
    using frac_residual [of a] by (simp add: f_def)
  have first: "fadd (double_of_limb (drop_bit 28 (limb s r m)))
      (fdiv (double_of_limb (limb s r m AND 0x0FFFFFFF)) (2 ^ 28)) = of_int a / 2 ^ 28"
    using top m uint_top_nibble [OF a0 a(2)] uint_low_28 [OF a0 a(2)]
    by (simp only: diff_Suc_1 double_of_limb_def fadd_def fdiv_def flip: f_def)
      (simp only: rf sum ra)
  have "to_d_loop r n n 0 1 s = to_d_loop r n m (of_int a / 2 ^ 28) 1 s"
    unfolding m to_d_loop.simps Let_def first by simp
  also have "\<dots> = of_int a / 2 ^ 28"
    using low by (intro to_d_loop_zero_limbs ra) (simp_all add: m)
  finally show ?thesis
    using sg nl by (simp add: bf_to_d_def Let_def)
qed

lemma is_zero_loop_iff:
  "is_zero_loop a i s \<longleftrightarrow> (\<forall>j. i \<le> j \<and> j < nlimbs (bf s a) \<longrightarrow> limb s a j = 0)"
proof (induction a i s rule: is_zero_loop.induct)
  case (1 a i s)
  show ?case
  proof (cases "i < nlimbs (bf s a)")
    case True
    show ?thesis
    proof (cases "limb s a i = 0")
      case z: True
      have "(\<forall>j. i \<le> j \<and> j < nlimbs (bf s a) \<longrightarrow> limb s a j = 0) \<longleftrightarrow>
            (\<forall>j. i + 1 \<le> j \<and> j < nlimbs (bf s a) \<longrightarrow> limb s a j = 0)"
        using z by (auto simp: Suc_le_eq elim: le_neq_trans [rotated] dest: le_neq_implies_less)
      with 1 True z show ?thesis
        by (subst is_zero_loop.simps) simp
    next
      case False
      with True show ?thesis
        by (subst is_zero_loop.simps) auto
    qed
  next
    case False
    then show ?thesis
      by (subst is_zero_loop.simps) auto
  qed
qed

lemma bf_is_zero_iff:
  "bf_is_zero a s \<longleftrightarrow> (\<forall>j < nlimbs (bf s a). limb s a j = 0)"
  by (simp add: bf_is_zero_def is_zero_loop_iff)

lemma set_d_loop_below_one:
  assumes "k = Suc i" and "0 < d" and "d * 2 ^ 32 < 1" and "rnd (d * 2 ^ 32) = d * 2 ^ 32"
  shows "set_d_loop r n k d s =
         set_d_loop r n i (d * 2 ^ 32) (set_limb r i (if k = n then limb s r i else 0) s)"
proof -
  have fl: "\<lfloor>d * 2 ^ 32\<rfloor> = 0"
    using assms by (simp add: floor_eq_iff)
  have l: "limb_of_double (d * 2 ^ 32) = 0"
    using assms fl by (simp add: limb_of_double_def int_of_double_def)
  have d2: "fsub (d * 2 ^ 32) (double_of_limb 0) = d * 2 ^ 32"
    using assms by (simp add: fsub_def double_of_limb_def)
  have d1: "fmul d (2 ^ 32) = d * 2 ^ 32"
    using assms by (simp add: fmul_def)
  show ?thesis
    unfolding assms(1) set_d_loop.simps Let_def d1 l d2 using assms(2) by simp
qed

lemma set_d_loop_integer:
  fixes m :: int
  assumes "k = Suc i" and "0 < d" and "d * 2 ^ 32 = of_int m" and "0 \<le> m" and "m < 2 ^ 32"
  shows "set_d_loop r n k d s =
         set_limb r i (if k = n then limb s r i OR drop_bit 4 (word_of_int m)
                       else word_of_int m) s"
proof -
  have d1: "fmul d (2 ^ 32) = of_int m"
    using assms rnd_of_int [of m] by (simp add: fmul_def)
  have l: "limb_of_double (of_int m) = word_of_int m"
    using assms by (simp add: limb_of_double_def int_of_double_def)
  have d2: "fsub (of_int m) (double_of_limb (word_of_int m)) = 0"
    using assms by (simp add: fsub_def double_of_limb_def uint_word_of_int_small)
  show ?thesis
    unfolding assms(1) set_d_loop.simps Let_def d1 l d2 set_d_loop_zero using assms(2) by simp
qed

lemma bf_set_d_start:
  assumes "0 < d" and "d < 1" and "rnd d = d"
  shows "bf_set_d r d n s =
         set_d_loop r n n d (set_limb r (n - 1) 0 (set_sign r 1 (bf_zero r n s)))"
proof -
  have "int_of_double d = 0"
    using assms by (simp add: int_of_double_def floor_eq_iff)
  then show ?thesis
    using assms by (simp add: bf_set_d_def Let_def fsub_def)
qed

lemma rnd_inv_pow2: "k \<le> 1074 \<Longrightarrow> rnd (1 / 2 ^ k) = 1 / 2 ^ k"
  using rnd_div_pow2 [of 1 k] by simp

lemma bf_to_d_zero_limbs:
  assumes "\<And>j. j < nlimbs (bf s a) \<Longrightarrow> limb s a j = 0"
  shows "bf_to_d a s = 0"
proof (cases "nlimbs (bf s a)")
  case 0
  then show ?thesis
    by (simp add: bf_to_d_def)
next
  case (Suc i)
  have "to_d_loop a (Suc i) (Suc i) 0 1 s = to_d_loop a (Suc i) i 0 1 s"
    using assms [of i] Suc by (simp add: Let_def fadd_def fdiv_def double_of_limb_def)
  also have "\<dots> = 0"
    using assms Suc by (intro to_d_loop_zero_limbs) simp_all
  finally show ?thesis
    by (simp add: bf_to_d_def Suc)
qed

text \<open>
  Where the round trip is exact: for every double \<open>d\<close> that is an integer multiple of
  \<open>2 powi - 28\<close> with \<open>\<bar>d\<bar> < 16\<close>, that is \<open>d = k / 2 ^ 28\<close> with \<open>\<bar>k\<bar> < 2 ^ 32\<close>,
  and every limb count \<open>n \<ge> 1\<close>, converting with \<^verbatim>\<open>bf_set_d\<close> and back with
  \<^verbatim>\<open>bf_to_d\<close> returns \<open>d\<close>: such a value has no bit below the top limb.
\<close>

lemma set_d_to_d_roundtrip:
  fixes k :: int
  assumes "\<bar>k\<bar> < 2 ^ 32" and "0 < n"
  shows "bf_to_d r (bf_set_d r (of_int k / 2 ^ 28) n s) = of_int k / 2 ^ 28"
proof (cases "k = 0")
  case True
  then show ?thesis
    by (simp add: bf_set_d_def bf_zero_def bf_to_d_def)
next
  case False
  define a where "a = \<bar>k\<bar>"
  define d :: rat where "d = of_int k / 2 ^ 28"
  have a: "0 < a" "a < 2 ^ 32"
    using False assms by (simp_all add: a_def)
  have d: "d = of_int a / 2 ^ 28 \<or> d = - (of_int a / 2 ^ 28)"
    by (cases "0 \<le> k") (simp_all add: a_def d_def)
  have neg: "d < 0 \<longleftrightarrow> k < 0"
    by (simp add: d_def divide_less_0_iff)
  note sd = bf_set_d_multiple [OF a assms(2) d, where r = r and s = s]
  have "bf_to_d r (bf_set_d r d n s) =
      (if sign (bf (bf_set_d r d n s) r) < 0 then - (of_int a / 2 ^ 28) else of_int a / 2 ^ 28)"
    using sd by (intro bf_to_d_multiple [OF a assms(2)]) (simp_all split: if_splits)
  also have "\<dots> = d"
    using sd(4) neg by (simp add: a_def d_def)
  finally show ?thesis
    by (simp add: d_def)
qed

lemma set_d_to_d_roundtrip_instance:
  "\<bar>- 805306369 :: int\<bar> < 2 ^ 32 \<and> (0 :: nat) < 2 \<and>
   bf_to_d (Obj 0) (bf_set_d (Obj 0) (of_int (- 805306369) / 2 ^ 28) 2 zero_state)
     = of_int (- 805306369) / 2 ^ 28"
  using set_d_to_d_roundtrip [of "- 805306369" 2 "Obj 0" zero_state] by simp

lemma to_d_two_limbs:
  fixes w :: rat
  assumes "nlimbs (bf s a) = 2" and "sign (bf s a) = 1" and "limb s a 1 = 0"
    and w: "w = of_int (uint (limb s a 0))" and r: "rnd (w / 2 ^ 32) = w / 2 ^ 32"
  shows "bf_to_d a s = w / 2 ^ 32"
proof -
  have two: "(2::nat) = Suc (Suc 0)"
    by simp
  have sc: "fdiv 1 (2 ^ 32) = 1 / 2 ^ 32"
    unfolding fdiv_def by (rule rnd_inv_pow2) simp
  have m: "x * (1 / 2 ^ 32) = x / 2 ^ 32" for x :: rat
    by simp
  have tm: "fmul (double_of_limb (limb s a 0)) (1 / 2 ^ 32) = w / 2 ^ 32"
    unfolding fmul_def double_of_limb_def m w [symmetric] by (rule r)
  have ad: "fadd 0 (w / 2 ^ 32) = w / 2 ^ 32"
    unfolding fadd_def add_0 by (rule r)
  have "to_d_loop a (Suc (Suc 0)) (Suc (Suc 0)) 0 1 s = to_d_loop a (Suc (Suc 0)) (Suc 0) 0 1 s"
    using assms(3) by (simp add: Let_def fadd_def fdiv_def double_of_limb_def)
  also have "\<dots> = fadd 0 (fmul (double_of_limb (limb s a 0)) (fdiv 1 (2 ^ 32)))"
    by (simp add: Let_def)
  also have "\<dots> = w / 2 ^ 32"
    unfolding sc tm ad ..
  finally show ?thesis
    using assms(1,2) by (simp add: bf_to_d_def two)
qed

text \<open>
  C1.  The round trip loses bits of doubles that the format holds.  With two limbs the
  format has 60 fraction bits.  The double \<open>2 powi - 6 + 2 powi - 29\<close>, of 24 significant
  bits, comes back as \<open>2 powi - 6\<close>: of the first 32 fraction bits \<^verbatim>\<open>bf_set_d\<close> keeps
  \<^verbatim>\<open>limb >> 4\<close>, the upper 28, and the four bits it shifts out are not carried into the
  next limb.  The double \<open>2 powi - 33\<close> comes back as \<open>1 / 2\<close>: \<^verbatim>\<open>bf_set_d\<close> stores the
  next 32 fraction bits as limb \<open>0\<close>, where the bit lands at position 31, and \<^verbatim>\<open>bf_to_d\<close>
  gives limb \<open>n - 2\<close> the weight \<open>2 powi - 32\<close>, its \<^verbatim>\<open>scale\<close> starting from \<open>1.0\<close>.
\<close>

theorem bf_set_d_to_d_loses_bits:
  "bf_to_d (Obj 0) (bf_set_d (Obj 0) (1 / 2 ^ 6 + 1 / 2 ^ 29) 2 zero_state) = 1 / 2 ^ 6 \<and>
   bf_to_d (Obj 0) (bf_set_d (Obj 0) (1 / 2 ^ 33) 2 zero_state) = 1 / 2"
proof
  define d :: rat where "d = 1 / 2 ^ 6 + 1 / 2 ^ 29"
  define s0 where "s0 = set_limb (Obj 0) (2 - 1) 0 (set_sign (Obj 0) 1 (bf_zero (Obj 0) 2 zero_state))"
  define s1 where "s1 = set_limb (Obj 0) 1
    (if (2::nat) = 2 then limb s0 (Obj 0) 1 OR drop_bit 4 (word_of_int 67108872)
     else word_of_int 67108872) s0"
  have dpos: "0 < d" "d < 1" "d * 2 ^ 32 = of_int 67108872"
    by (simp_all add: d_def)
  have eq: "d = of_int 8388609 / 2 ^ 29"
    by (simp add: d_def)
  have rd: "rnd d = d"
    unfolding eq by (rule rnd_div_pow2) simp_all
  have "bf_set_d (Obj 0) d 2 zero_state = set_d_loop (Obj 0) 2 2 d s0"
    unfolding s0_def using dpos rd by (intro bf_set_d_start)
  also have "\<dots> = s1"
    unfolding s1_def using dpos by (intro set_d_loop_integer) simp_all
  finally have s: "bf_set_d (Obj 0) d 2 zero_state = s1" .
  have top: "limb s1 (Obj 0) (2 - 1) = word_of_int 4194304"
    by (simp add: s1_def s0_def bf_zero_def)
  have low: "j < 2 - 1 \<Longrightarrow> limb s1 (Obj 0) j = 0" for j
    by (simp add: s1_def s0_def bf_zero_def)
  have nl: "nlimbs (bf s1 (Obj 0)) = 2" and sg: "sign (bf s1 (Obj 0)) = 1"
    by (simp_all add: s1_def s0_def bf_zero_def)
  have "bf_to_d (Obj 0) s1 =
      (if sign (bf s1 (Obj 0)) < 0 then - (of_int 4194304 / 2 ^ 28) else of_int 4194304 / 2 ^ 28)"
    using top low nl sg by (intro bf_to_d_multiple) simp_all
  then show "bf_to_d (Obj 0) (bf_set_d (Obj 0) (1 / 2 ^ 6 + 1 / 2 ^ 29) 2 zero_state) = 1 / 2 ^ 6"
    unfolding d_def [symmetric] s by (simp add: sg)
next
  define d :: rat where "d = 1 / 2 ^ 33"
  define s0 where "s0 = set_limb (Obj 0) (2 - 1) 0 (set_sign (Obj 0) 1 (bf_zero (Obj 0) 2 zero_state))"
  define s1 where "s1 = set_limb (Obj 0) 1 (if (2::nat) = 2 then limb s0 (Obj 0) 1 else 0) s0"
  define s2 where "s2 = set_limb (Obj 0) 0
    (if (1::nat) = 2 then limb s1 (Obj 0) 0 OR drop_bit 4 (word_of_int 2147483648)
     else word_of_int 2147483648) s1"
  have dpos: "0 < d" "d < 1" "d * 2 ^ 32 < 1" "0 < d * 2 ^ 32"
    "d * 2 ^ 32 * 2 ^ 32 = of_int 2147483648"
    by (simp_all add: d_def)
  have rd: "rnd d = d"
    unfolding d_def by (rule rnd_inv_pow2) simp
  have e1: "d * 2 ^ 32 = 1 / 2 ^ 1"
    by (simp add: d_def)
  have r1: "rnd (d * 2 ^ 32) = d * 2 ^ 32"
    unfolding e1 by (rule rnd_inv_pow2) simp
  have "bf_set_d (Obj 0) d 2 zero_state = set_d_loop (Obj 0) 2 2 d s0"
    unfolding s0_def using dpos rd by (intro bf_set_d_start)
  also have "\<dots> = set_d_loop (Obj 0) 2 1 (d * 2 ^ 32) s1"
    unfolding s1_def using dpos r1 by (intro set_d_loop_below_one) simp_all
  also have "\<dots> = s2"
    unfolding s2_def using dpos by (intro set_d_loop_integer) simp_all
  finally have s: "bf_set_d (Obj 0) d 2 zero_state = s2" .
  have l0: "limb s2 (Obj 0) 0 = 2147483648" and l1: "limb s2 (Obj 0) 1 = 0"
    and nl: "nlimbs (bf s2 (Obj 0)) = 2" and sg: "sign (bf s2 (Obj 0)) = 1"
    by (simp_all add: s2_def s1_def s0_def bf_zero_def)
  have w: "(2147483648 :: rat) = of_int (uint (limb s2 (Obj 0) 0))"
    by (simp add: l0)
  have "rnd (of_int 2147483648 / 2 ^ 32) = of_int 2147483648 / 2 ^ 32"
    by (rule rnd_div_pow2) simp_all
  then have half: "rnd (2147483648 / 2 ^ 32) = 2147483648 / 2 ^ 32"
    by (simp only: of_int_numeral)
  have "bf_to_d (Obj 0) s2 = 2147483648 / 2 ^ 32"
    using nl sg l1 w half by (rule to_d_two_limbs)
  then show "bf_to_d (Obj 0) (bf_set_d (Obj 0) (1 / 2 ^ 33) 2 zero_state) = 1 / 2"
    unfolding d_def [symmetric] s by simp
qed

text \<open>
  C2.  \<^verbatim>\<open>bf_set_d\<close> does not normalise the sign.  For \<open>d = 2 powi - 29\<close> and two limbs
  the first pass of the loop yields the limb \<open>8\<close>, of which \<^verbatim>\<open>limb >> 4\<close> keeps nothing,
  and the residual is \<open>0\<close>: every limb of the result is \<open>0\<close>, \<^verbatim>\<open>bf_is_zero\<close> holds, and
  the sign is \<open>1\<close>.
\<close>

theorem bf_set_d_sign_not_normalised:
  "(let s = bf_set_d (Obj 0) (1 / 2 ^ 29) 2 zero_state
    in limb s (Obj 0) 0 = 0 \<and> limb s (Obj 0) 1 = 0 \<and> nlimbs (bf s (Obj 0)) = 2 \<and>
       sign (bf s (Obj 0)) = 1 \<and> bf_is_zero (Obj 0) s)"
proof -
  define d :: rat where "d = 1 / 2 ^ 29"
  define s0 where "s0 = set_limb (Obj 0) (2 - 1) 0 (set_sign (Obj 0) 1 (bf_zero (Obj 0) 2 zero_state))"
  define s1 where "s1 = set_limb (Obj 0) 1
    (if (2::nat) = 2 then limb s0 (Obj 0) 1 OR drop_bit 4 (word_of_int 8) else word_of_int 8) s0"
  have dpos: "0 < d" "d < 1" "d * 2 ^ 32 = of_int 8"
    by (simp_all add: d_def)
  have r29: "rnd d = d"
    unfolding d_def by (rule rnd_inv_pow2) simp
  have "bf_set_d (Obj 0) d 2 zero_state = set_d_loop (Obj 0) 2 2 d s0"
    unfolding s0_def using dpos r29 by (intro bf_set_d_start)
  also have "\<dots> = s1"
    unfolding s1_def using dpos by (intro set_d_loop_integer) simp_all
  finally have s: "bf_set_d (Obj 0) d 2 zero_state = s1" .
  have obs: "nlimbs (bf s1 (Obj 0)) = 2" "sign (bf s1 (Obj 0)) = 1"
    "\<And>j. j < 2 \<Longrightarrow> limb s1 (Obj 0) j = 0"
    by (simp_all add: s1_def s0_def bf_zero_def)
  then have "bf_is_zero (Obj 0) s1"
    by (simp add: bf_is_zero_iff)
  with obs show ?thesis
    unfolding Let_def d_def [symmetric] s by simp
qed

section \<open>Decimal parsing reads the numeral prefix\<close>

lemma not_digit_special [simp]:
  "\<not> is_digit CHR ''.''" "\<not> is_digit CHR ''-''" "\<not> is_digit CHR ''+''" "\<not> is_digit CHR '' ''"
  by (simp_all add: is_digit_def)

lemma skip_spaces_dropWhile: "skip_spaces str = dropWhile is_space str"
  by (induction str) (simp_all add: is_space_def)

lemma skip_sign_sign_chars:
  "skip_sign p = (sign_chars p = ''-'', drop (length (sign_chars p)) p)"
  by (cases p) (auto simp: skip_sign_def sign_chars_def)

lemma int_part_loop_takeWhile:
  "int_part_loop acc (takeWhile is_digit p) = (fst (int_part_loop acc p), [])"
  by (induction p arbitrary: acc) simp_all

lemma int_part_loop_rest: "snd (int_part_loop acc p) = dropWhile is_digit p"
  by (induction p arbitrary: acc) simp_all

lemma int_part_loop_stop:
  "rest = [] \<or> \<not> is_digit (hd rest) \<Longrightarrow> int_part_loop acc rest = (acc, rest)"
  by (cases rest) auto

lemma int_part_loop_append:
  "rest = [] \<or> \<not> is_digit (hd rest) \<Longrightarrow>
   int_part_loop acc (takeWhile is_digit p @ rest) = (fst (int_part_loop acc p), rest)"
  by (induction p arbitrary: acc) (simp_all add: int_part_loop_stop)

lemma frac_loop_takeWhile:
  "frac_loop fr sc (takeWhile is_digit p) = frac_loop fr sc p"
  by (induction p arbitrary: fr sc) simp_all

lemma frac_part_frac_chars: "frac_part (frac_chars p) = frac_part p"
  by (cases p) (simp_all add: frac_part_def frac_chars_def frac_loop_takeWhile)

lemma frac_chars_head: "frac_chars p = [] \<or> \<not> is_digit (hd (frac_chars p))"
  by (cases p) (simp_all add: frac_chars_def)

lemma dropWhile_takeWhile_append: "dropWhile P (takeWhile P xs @ ys) = dropWhile P ys"
  by (induction xs) auto

lemma bf_from_str_parsed:
  "bf_from_str r str n s =
     (let (negative, int_part, fr) = parsed str;
          s1 = bf_set_d r (fadd int_part fr) n (bf_zero r n s)
      in if negative then set_sign r (- sign (bf s1 r)) s1 else s1)"
  by (simp add: bf_from_str_def parsed_def Let_def split: prod.splits)

lemma parsed_numeral_prefix: "parsed (numeral_prefix str) = parsed str"
proof -
  define sp where "sp = takeWhile is_space str"
  define r1 where "r1 = dropWhile is_space str"
  define sg where "sg = sign_chars r1"
  define r2 where "r2 = drop (length sg) r1"
  define ds where "ds = takeWhile is_digit r2"
  define r3 where "r3 = dropWhile is_digit r2"
  define tl1 where "tl1 = sg @ ds @ frac_chars r3"
  have np: "numeral_prefix str = sp @ tl1"
    by (simp add: numeral_prefix_def signed_chars_def digits_frac_def sp_def r1_def sg_def
        r2_def ds_def r3_def tl1_def)
  have sg_cases: "sg = [] \<or> sg = ''-'' \<or> sg = ''+''"
    by (cases r1) (auto simp: sg_def sign_chars_def)
  have r1_head: "r1 = [] \<or> \<not> is_space (hd r1)"
    unfolding r1_def by (metis hd_dropWhile)
  have sg_nil: "sg = [] \<Longrightarrow> r1 = [] \<or> (hd r1 \<noteq> CHR ''-'' \<and> hd r1 \<noteq> CHR ''+'')"
    by (cases r1) (auto simp: sg_def sign_chars_def split: if_splits)
  have ds_digits: "\<forall>c \<in> set ds. is_digit c"
    unfolding ds_def by (metis set_takeWhileD)
  have tl1_head: "tl1 = [] \<or> \<not> is_space (hd tl1)"
  proof (cases "sg = []")
    case False
    with sg_cases show ?thesis by (auto simp: tl1_def is_space_def)
  next
    case True
    show ?thesis
    proof (cases ds)
      case Nil
      with True frac_chars_head [of r3] show ?thesis
        by (cases r3) (auto simp: tl1_def frac_chars_def is_space_def split: if_splits)
    next
      case (Cons c cs)
      with ds_digits have "is_digit c" by simp
      then have "\<not> is_space c" by (auto simp: is_space_def)
      with True Cons show ?thesis by (simp add: tl1_def)
    qed
  qed
  have "dropWhile is_space (sp @ tl1) = tl1"
  proof -
    have "dropWhile is_space (sp @ tl1) = dropWhile is_space tl1"
      unfolding sp_def by (rule dropWhile_takeWhile_append)
    also have "\<dots> = tl1"
      using tl1_head by (cases tl1) auto
    finally show ?thesis .
  qed
  then have a: "skip_spaces (numeral_prefix str) = tl1"
    by (simp add: np skip_spaces_dropWhile)
  have b: "skip_spaces str = r1"
    by (simp add: skip_spaces_dropWhile r1_def)
  have sc: "sign_chars tl1 = sg"
  proof (cases "sg = []")
    case False
    with sg_cases show ?thesis by (auto simp: tl1_def sign_chars_def)
  next
    case True
    show ?thesis
    proof (cases ds)
      case Nil
      with True show ?thesis
        by (cases r3) (auto simp: tl1_def frac_chars_def sign_chars_def)
    next
      case (Cons c cs)
      with ds_digits have "is_digit c" by simp
      then have "c \<noteq> CHR ''-''" "c \<noteq> CHR ''+''" by auto
      with True Cons show ?thesis by (simp add: tl1_def sign_chars_def)
    qed
  qed
  have "drop (length sg) tl1 = ds @ frac_chars r3"
    by (simp add: tl1_def)
  then have c: "skip_sign tl1 = (sg = ''-'', ds @ frac_chars r3)"
    by (simp add: skip_sign_sign_chars sc)
  have d: "skip_sign r1 = (sg = ''-'', r2)"
    by (simp add: skip_sign_sign_chars sg_def r2_def)
  define ip where "ip = fst (int_part_loop 0 r2)"
  have e: "int_part_loop 0 (ds @ frac_chars r3) = (ip, frac_chars r3)"
    unfolding ds_def ip_def using frac_chars_head [of r3] by (rule int_part_loop_append)
  have f: "int_part_loop 0 r2 = (ip, r3)"
    using int_part_loop_rest [of 0 r2] by (simp add: r3_def ip_def prod_eq_iff)
  show ?thesis
    unfolding parsed_def a b c d Let_def prod.case
    by (simp only: e f prod.case frac_part_frac_chars)
qed

lemma bf_from_str_numeral_prefix:
  "bf_from_str r (numeral_prefix str) n s = bf_from_str r str n s"
  by (simp only: bf_from_str_parsed parsed_numeral_prefix)

lemma sign_chars_cases: "sign_chars p = [] \<or> sign_chars p = ''+'' \<or> sign_chars p = ''-''"
  by (cases p) (auto simp: sign_chars_def)

lemma sign_chars_prefix: "sign_chars p @ drop (length (sign_chars p)) p = p"
  by (cases p) (auto simp: sign_chars_def)

lemma sign_chars_append: "p \<noteq> [] \<Longrightarrow> sign_chars (p @ t) = sign_chars p"
  by (cases p) (auto simp: sign_chars_def)

lemma frac_chars_shape:
  "frac_chars p = [] \<or> (\<exists>fs. frac_chars p = CHR ''.'' # fs \<and> list_all is_digit fs)"
  by (cases p) (auto simp: frac_chars_def list_all_iff dest: set_takeWhileD)

lemma numeral_prefix_is_prefix: "prefix (numeral_prefix str) str"
proof -
  have "prefix (frac_chars p) p" for p
    by (cases p) (auto simp: frac_chars_def takeWhile_is_prefix)
  then have "prefix (digits_frac p) p" for p
    by (metis digits_frac_def same_prefix_prefix takeWhile_dropWhile_id)
  then have "prefix (signed_chars p) p" for p
    by (metis signed_chars_def same_prefix_prefix sign_chars_prefix)
  then show ?thesis
    by (metis numeral_prefix_def same_prefix_prefix takeWhile_dropWhile_id)
qed

lemma numeral_form_numeral_prefix: "numeral_form (numeral_prefix str)"
  unfolding numeral_form_def numeral_prefix_def signed_chars_def digits_frac_def
  using sign_chars_cases frac_chars_shape
  by (intro exI conjI refl) (auto simp: list_all_iff dest: set_takeWhileD)

lemma takeWhile_append_mono: "prefix (takeWhile P a) (takeWhile P (a @ t))"
  by (induction a) auto

lemma frac_chars_mono: "prefix (frac_chars a) (frac_chars (a @ t))"
  by (cases a) (auto simp: frac_chars_def takeWhile_append_mono)

lemma digits_frac_mono: "prefix (digits_frac a) (digits_frac (a @ t))"
proof (cases "\<forall>x \<in> set a. is_digit x")
  case True
  then have tw: "takeWhile is_digit a = a" and dw: "dropWhile is_digit a = []"
    by (simp_all add: takeWhile_eq_all_conv dropWhile_eq_Nil_conv)
  have "digits_frac a = a"
    unfolding digits_frac_def tw dw by (simp add: frac_chars_def)
  moreover from True have "takeWhile is_digit (a @ t) = a @ takeWhile is_digit t"
    by (simp add: takeWhile_append2)
  ultimately show ?thesis
    by (simp add: digits_frac_def)
next
  case False
  then obtain x where x: "x \<in> set a" "\<not> is_digit x"
    by blast
  then have "takeWhile is_digit (a @ t) = takeWhile is_digit a"
    and "dropWhile is_digit (a @ t) = dropWhile is_digit a @ t"
    by (simp_all add: takeWhile_append1 dropWhile_append1)
  then show ?thesis
    by (simp add: digits_frac_def frac_chars_mono)
qed

lemma signed_chars_mono: "prefix (signed_chars a) (signed_chars (a @ t))"
proof (cases a)
  case Nil
  then show ?thesis
    by (simp add: signed_chars_def sign_chars_def digits_frac_def frac_chars_def)
next
  case (Cons c cs)
  then have sc: "sign_chars (a @ t) = sign_chars a"
    by (simp add: sign_chars_def)
  have "length (sign_chars a) \<le> length a"
    using Cons by (auto simp: sign_chars_def)
  then have "drop (length (sign_chars a)) (a @ t) = drop (length (sign_chars a)) a @ t"
    by simp
  then show ?thesis
    by (simp add: signed_chars_def sc digits_frac_mono)
qed

lemma numeral_prefix_mono: "prefix (numeral_prefix q) (numeral_prefix (q @ t))"
proof (cases "\<forall>x \<in> set q. is_space x")
  case True
  then have tw: "takeWhile is_space q = q" and dw: "dropWhile is_space q = []"
    by (simp_all add: takeWhile_eq_all_conv dropWhile_eq_Nil_conv)
  have "numeral_prefix q = q"
    unfolding numeral_prefix_def tw dw
    by (simp add: signed_chars_def sign_chars_def digits_frac_def frac_chars_def)
  moreover from True have "takeWhile is_space (q @ t) = q @ takeWhile is_space t"
    by (simp add: takeWhile_append2)
  ultimately show ?thesis
    by (simp add: numeral_prefix_def)
next
  case False
  then obtain x where x: "x \<in> set q" "\<not> is_space x"
    by blast
  then have "takeWhile is_space (q @ t) = takeWhile is_space q"
    and "dropWhile is_space (q @ t) = dropWhile is_space q @ t"
    by (simp_all add: takeWhile_append1 dropWhile_append1)
  then show ?thesis
    by (simp add: numeral_prefix_def signed_chars_mono)
qed

lemma takeWhile_segment:
  "list_all P xs \<Longrightarrow> rest = [] \<or> \<not> P (hd rest) \<Longrightarrow>
   takeWhile P (xs @ rest) = xs \<and> dropWhile P (xs @ rest) = rest"
  by (cases rest) (auto simp: list_all_iff takeWhile_append2 dropWhile_append2)

lemma numeral_prefix_append_stop:
  assumes q: "q = sp @ sg @ ds @ fr"
    and sp: "list_all is_space sp"
    and sg: "sg = [] \<or> sg = ''+'' \<or> sg = ''-''"
    and ds: "list_all is_digit ds"
    and fr: "fr = [] \<or> (\<exists>fs. fr = CHR ''.'' # fs \<and> list_all is_digit fs)"
    and u: "u = [] \<or> (\<not> is_digit (hd u) \<and> (fr \<noteq> [] \<or> hd u \<noteq> CHR ''.'') \<and>
              (sg @ ds @ fr \<noteq> [] \<or>
               (\<not> is_space (hd u) \<and> hd u \<noteq> CHR ''+'' \<and> hd u \<noteq> CHR ''-'')))"
  shows "numeral_prefix (q @ u) = q"
proof -
  have fc: "frac_chars (fr @ u) = fr"
  proof (cases "fr = []")
    case True
    with u show ?thesis by (cases u) (auto simp: frac_chars_def)
  next
    case False
    with fr obtain fs where fs: "fr = CHR ''.'' # fs" "list_all is_digit fs"
      by blast
    have "u = [] \<or> \<not> is_digit (hd u)"
      using u by blast
    from takeWhile_segment [OF fs(2) this] show ?thesis
      by (simp add: frac_chars_def fs(1))
  qed
  have fr_head: "fr @ u = [] \<or> \<not> is_digit (hd (fr @ u))"
    using fr u by (cases "fr = []") auto
  have df: "digits_frac (ds @ fr @ u) = ds @ fr"
    using takeWhile_segment [OF ds fr_head] by (simp add: digits_frac_def fc)
  have dfr_sign: "sg = [] \<Longrightarrow> sign_chars (ds @ fr @ u) = []"
  proof (cases ds)
    case Nil
    assume "sg = []"
    with Nil fr u show ?thesis
      by (cases "fr = []"; cases u) (auto simp: sign_chars_def)
  next
    case (Cons c cs)
    with ds have "is_digit c" by simp
    then have "c \<noteq> CHR ''-''" "c \<noteq> CHR ''+''" by auto
    with Cons show ?thesis by (simp add: sign_chars_def)
  qed
  have sc: "signed_chars (sg @ ds @ fr @ u) = sg @ ds @ fr"
    using sg dfr_sign df by (auto simp: signed_chars_def sign_chars_def)
  have head: "sg @ ds @ fr @ u = [] \<or> \<not> is_space (hd (sg @ ds @ fr @ u))"
  proof (cases "sg = []")
    case False
    with sg show ?thesis by (auto simp: is_space_def)
  next
    case True
    show ?thesis
    proof (cases ds)
      case Nil
      with True fr u show ?thesis
        by (cases "fr = []"; cases u) (auto simp: is_space_def)
    next
      case (Cons c cs)
      with ds have "is_digit c" by simp
      then have "\<not> is_space c" by (auto simp: is_space_def)
      with True Cons show ?thesis by simp
    qed
  qed
  show ?thesis
    using takeWhile_segment [OF sp head] by (simp add: numeral_prefix_def q sc)
qed

lemma numeral_prefix_of_form:
  assumes "numeral_form q"
  shows "numeral_prefix q = q"
proof -
  from assms obtain sp sg ds fr where q: "q = sp @ sg @ ds @ fr"
    and sp: "list_all is_space sp"
    and sg: "sg = [] \<or> sg = ''+'' \<or> sg = ''-''"
    and ds: "list_all is_digit ds"
    and fr: "fr = [] \<or> (\<exists>fs. fr = CHR ''.'' # fs \<and> list_all is_digit fs)"
    unfolding numeral_form_def by blast
  from numeral_prefix_append_stop [OF q sp sg ds fr, of "[]"] show ?thesis
    by simp
qed

lemma numeral_prefix_append_char:
  assumes "numeral_form p" and "\<not> is_digit c"
    and dot: "CHR ''.'' \<in> set p \<or> c \<noteq> CHR ''.''"
    and blank: "(\<exists>x \<in> set p. \<not> is_space x) \<or> (c \<noteq> CHR '' '' \<and> c \<noteq> CHR ''+'' \<and> c \<noteq> CHR ''-'')"
  shows "numeral_prefix (p @ c # t) = p"
proof -
  from assms(1) obtain sp sg ds fr where q: "p = sp @ sg @ ds @ fr"
    and sp: "list_all is_space sp"
    and sg: "sg = [] \<or> sg = ''+'' \<or> sg = ''-''"
    and ds: "list_all is_digit ds"
    and fr: "fr = [] \<or> (\<exists>fs. fr = CHR ''.'' # fs \<and> list_all is_digit fs)"
    unfolding numeral_form_def by blast
  have "CHR ''.'' \<notin> set sp"
  proof
    assume "CHR ''.'' \<in> set sp"
    with sp have "is_space CHR ''.''"
      by (simp add: list_all_iff)
    then show False
      by (simp add: is_space_def)
  qed
  moreover have "CHR ''.'' \<notin> set sg"
    using sg by auto
  moreover have "CHR ''.'' \<notin> set ds"
    using ds by (auto simp: list_all_iff)
  ultimately have "CHR ''.'' \<in> set p \<Longrightarrow> fr \<noteq> []"
    unfolding q by auto
  with dot have a: "fr \<noteq> [] \<or> c \<noteq> CHR ''.''"
    by blast
  have "\<exists>x \<in> set p. \<not> is_space x \<Longrightarrow> sg @ ds @ fr \<noteq> []"
    unfolding q using sp by (auto simp: list_all_iff)
  with blank have b: "sg @ ds @ fr \<noteq> [] \<or> (\<not> is_space c \<and> c \<noteq> CHR ''+'' \<and> c \<noteq> CHR ''-'')"
    by (auto simp: is_space_def)
  have "c # t = [] \<or> (\<not> is_digit (hd (c # t)) \<and> (fr \<noteq> [] \<or> hd (c # t) \<noteq> CHR ''.'') \<and>
              (sg @ ds @ fr \<noteq> [] \<or>
               (\<not> is_space (hd (c # t)) \<and> hd (c # t) \<noteq> CHR ''+'' \<and> hd (c # t) \<noteq> CHR ''-'')))"
    using assms(2) a b by simp
  then show ?thesis
    by (rule numeral_prefix_append_stop [OF q sp sg ds fr])
qed

lemma numeral_prefix_maximal:
  assumes "prefix q str" and "numeral_form q"
  shows "prefix q (numeral_prefix str)"
proof -
  from assms(1) obtain t where "str = q @ t"
    by (auto simp: prefix_def)
  then show ?thesis
    using numeral_prefix_mono [of q t] numeral_prefix_of_form [OF assms(2)] by simp
qed

lemma bf_from_str_maximal_prefix:
  assumes "prefix p str" and "numeral_form p"
    and "\<forall>q. prefix q str \<and> numeral_form q \<longrightarrow> length q \<le> length p"
  shows "bf_from_str r str n s = bf_from_str r p n s"
proof -
  have "length (numeral_prefix str) \<le> length p"
    using assms(3) numeral_prefix_is_prefix numeral_form_numeral_prefix by blast
  moreover have "prefix p (numeral_prefix str)"
    using assms(1,2) by (rule numeral_prefix_maximal)
  ultimately have "p = numeral_prefix str"
    by (metis prefix_length_le prefix_order.antisym_conv prefix_length_prefix
        numeral_prefix_is_prefix order_refl le_antisym)
  then show ?thesis
    by (simp add: bf_from_str_numeral_prefix)
qed

text \<open>
  C9.  \<^verbatim>\<open>bf_from_str\<close> has no error result: it is a total function into stores.  Its
  result is the result on the maximal prefix \<open>p\<close> of the string that has the form
  spaces, optional sign, digits, optional point and digits.  In particular, for \<open>p\<close> of
  that form, a suffix \<open>c # t\<close> changes nothing when \<open>c\<close> is no digit and, unless \<open>p\<close>
  already has its point, \<open>c\<close> is no point (while \<open>p\<close> is only spaces, a space or a sign
  would still belong to the numeral and is excluded as well).
\<close>

theorem bf_from_str_reads_numeral_prefix:
  "(prefix p str \<and> numeral_form p \<and>
      (\<forall>q. prefix q str \<and> numeral_form q \<longrightarrow> length q \<le> length p) \<longrightarrow>
    bf_from_str r str n s = bf_from_str r p n s) \<and>
   (numeral_form p \<and> \<not> is_digit c \<and> (CHR ''.'' \<in> set p \<or> c \<noteq> CHR ''.'') \<and>
      ((\<exists>x \<in> set p. \<not> is_space x) \<or> (c \<noteq> CHR '' '' \<and> c \<noteq> CHR ''+'' \<and> c \<noteq> CHR ''-'')) \<longrightarrow>
    bf_from_str r (p @ c # t) n s = bf_from_str r p n s)"
proof (intro conjI impI)
  assume "prefix p str \<and> numeral_form p \<and>
      (\<forall>q. prefix q str \<and> numeral_form q \<longrightarrow> length q \<le> length p)"
  then show "bf_from_str r str n s = bf_from_str r p n s"
    by (intro bf_from_str_maximal_prefix) simp_all
next
  assume "numeral_form p \<and> \<not> is_digit c \<and> (CHR ''.'' \<in> set p \<or> c \<noteq> CHR ''.'') \<and>
      ((\<exists>x \<in> set p. \<not> is_space x) \<or> (c \<noteq> CHR '' '' \<and> c \<noteq> CHR ''+'' \<and> c \<noteq> CHR ''-''))"
  then have "numeral_prefix (p @ c # t) = p"
    by (intro numeral_prefix_append_char) simp_all
  then show "bf_from_str r (p @ c # t) n s = bf_from_str r p n s"
    using bf_from_str_numeral_prefix [of r "p @ c # t" n s] by simp
qed

theorem bf_from_str_reads_numeral_prefix_witness:
  "prefix ''-12.5'' ''-12.5xyz'' \<and> numeral_form ''-12.5'' \<and> \<not> is_digit CHR ''x'' \<and>
   bf_from_str (Obj 0) ''-12.5xyz'' 2 zero_state = bf_from_str (Obj 0) ''-12.5'' 2 zero_state \<and>
   bf_from_str (Obj 0) (''-12.5'' @ CHR ''x'' # ''yz'') 2 zero_state
     = bf_from_str (Obj 0) ''-12.5'' 2 zero_state"
proof -
  have np: "numeral_prefix ''-12.5xyz'' = ''-12.5''"
    by (simp add: numeral_prefix_def signed_chars_def sign_chars_def digits_frac_def
        frac_chars_def is_space_def is_digit_def)
  have pre: "prefix ''-12.5'' ''-12.5xyz''"
    by simp
  have form: "numeral_form ''-12.5''"
    using numeral_form_numeral_prefix [of "''-12.5xyz''"] by (simp only: np)
  have max: "\<forall>q. prefix q ''-12.5xyz'' \<and> numeral_form q \<longrightarrow> length q \<le> length ''-12.5''"
  proof (intro allI impI)
    fix q
    assume "prefix q ''-12.5xyz'' \<and> numeral_form q"
    then have "prefix q (numeral_prefix ''-12.5xyz'')"
      by (intro numeral_prefix_maximal) simp_all
    then have "prefix q ''-12.5''"
      by (simp only: np)
    then show "length q \<le> length ''-12.5''"
      by (rule prefix_length_le)
  qed
  have x: "\<not> is_digit CHR ''x''"
    by (simp add: is_digit_def)
  have dot: "CHR ''.'' \<in> set ''-12.5'' \<or> CHR ''x'' \<noteq> CHR ''.''"
    by simp
  have nonblank: "(\<exists>x \<in> set ''-12.5''. \<not> is_space x) \<or>
      (CHR ''x'' \<noteq> CHR '' '' \<and> CHR ''x'' \<noteq> CHR ''+'' \<and> CHR ''x'' \<noteq> CHR ''-'')"
    by simp
  note th = bf_from_str_reads_numeral_prefix
      [of "''-12.5''" "''-12.5xyz''" "Obj 0" 2 zero_state "CHR ''x''" "''yz''"]
  have a: "bf_from_str (Obj 0) ''-12.5xyz'' 2 zero_state = bf_from_str (Obj 0) ''-12.5'' 2 zero_state"
    by (rule th [THEN conjunct1, THEN mp, OF conjI [OF pre conjI [OF form max]]])
  have b: "bf_from_str (Obj 0) (''-12.5'' @ CHR ''x'' # ''yz'') 2 zero_state
     = bf_from_str (Obj 0) ''-12.5'' 2 zero_state"
    by (rule th [THEN conjunct2, THEN mp, OF conjI [OF form conjI [OF x conjI [OF dot nonblank]]]])
  show ?thesis
    by (intro conjI pre form x a b)
qed

section \<open>The escape loop and the reference orbits\<close>

lemma sign_bf_zero [simp]:
  "sign (bf (bf_zero r n s) q) = (if q = r then 0 else sign (bf s q))"
  by (simp add: bf_zero_def)

lemma nlimbs_bf_zero [simp]:
  "nlimbs (bf (bf_zero r n s) q) = (if q = r then n else nlimbs (bf s q))"
  by (simp add: bf_zero_def)

lemma limb_bf_zero [simp]:
  "limb (bf_zero r n s) q j = (if q = r \<and> j < n then 0 else limb s q j)"
  by (simp add: bf_zero_def)

lemma sign_bf_copy [simp]:
  "sign (bf (bf_copy r a s) q) = (if q = r then sign (bf s a) else sign (bf s q))"
  by (simp add: bf_copy_def Let_def)

lemma nlimbs_bf_copy [simp]:
  "nlimbs (bf (bf_copy r a s) q) = (if q = r then nlimbs (bf s a) else nlimbs (bf s q))"
  by (simp add: bf_copy_def Let_def)

lemma sign_mul_outer [simp]: "sign (bf (mul_outer a b n i s) q) = sign (bf s q)"
  by (simp add: mul_outer_bf)

lemma sign_sqr_outer [simp]: "sign (bf (sqr_outer a n i s) q) = sign (bf s q)"
  by (simp add: sqr_outer_bf)

lemma bf_sqr_sign_zero: "sign (bf s a) = 0 \<Longrightarrow> sign (bf (bf_sqr r a s) r) = 0"
  by (simp add: bf_sqr_def Let_def extract_loop_sign)

lemma bf_mul_sign_zero:
  "r \<noteq> a \<Longrightarrow> sign (bf s a) = 0 \<Longrightarrow> sign (bf (bf_mul r a b s) r) = 0"
  by (simp add: bf_mul_def bf_mul_karatsuba_def bf_mul_schoolbook_def Let_def extract_loop_sign)

lemma bf_add_zero_left:
  "sign (bf s a) = 0 \<Longrightarrow> bf_add r a b s = bf_copy r b (set_nlimbs r (nlimbs (bf s a)) s)"
  by (simp add: bf_add_def Let_def)

lemma bf_add_sign_zero:
  "sign (bf s a) = 0 \<Longrightarrow> sign (bf (bf_add r a b s) r) = sign (bf s b)"
  by (simp add: bf_add_zero_left)

lemma bf_sub_sign_zero:
  "a \<noteq> Neg_b \<Longrightarrow> sign (bf s a) = 0 \<Longrightarrow> sign (bf (bf_sub r a b s) r) = - sign (bf s b)"
  by (simp add: bf_sub_def Let_def bf_add_sign_zero)

lemma double_prod_loop_other: "q \<noteq> Prod \<Longrightarrow> bf (double_prod_loop i c s) q = bf s q"
proof (induction i c s rule: double_prod_loop.induct)
  case (1 i carry s)
  then show ?case
    by (subst double_prod_loop.simps) (simp add: Let_def)
qed

lemma double_prod_loop_sign: "sign (bf (double_prod_loop i c s) q) = sign (bf s q)"
proof (induction i c s rule: double_prod_loop.induct)
  case (1 i carry s)
  then show ?case
    by (subst double_prod_loop.simps) (simp add: Let_def)
qed

lemma mandelbrot_step_other:
  assumes "q \<noteq> zr" "q \<noteq> zi" "q \<noteq> tmp1" "q \<noteq> tmp2" "q \<noteq> Prod" "q \<noteq> Neg_b"
  shows "bf (mandelbrot_step zr zi cr ci tmp1 tmp2 s) q = bf s q"
  using assms
  by (simp add: mandelbrot_step_def Let_def bf_add_other bf_sub_other bf_mul_other bf_sqr_other
      double_prod_loop_other)

lemma z_step_other:
  "q \<noteq> Zr \<Longrightarrow> q \<noteq> Zi \<Longrightarrow> q \<noteq> Tmp1 \<Longrightarrow> q \<noteq> Tmp2 \<Longrightarrow> q \<noteq> Prod \<Longrightarrow> q \<noteq> Neg_b \<Longrightarrow>
   bf (z_step s) q = bf s q"
  by (simp add: z_step_def mandelbrot_step_other)

lemma origin_signs_step:
  assumes "origin_signs s"
  shows "origin_signs (z_step s)"
proof -
  define s1 where "s1 = bf_sqr Tmp1 Zr s"
  define s2 where "s2 = bf_sqr Tmp2 Zi s1"
  define s3 where "s3 = bf_mul Prod Zr Zi s2"
  define s4 where "s4 = double_prod_loop 0 0 s3"
  define s5 where "s5 = bf_add Zi Prod Ci s4"
  define s6 where "s6 = bf_sub Tmp1 Tmp1 Tmp2 s5"
  define s7 where "s7 = bf_add Zr Tmp1 Cr s6"
  have step: "z_step s = s7"
    by (simp add: z_step_def mandelbrot_step_def Let_def s1_def s2_def s3_def s4_def s5_def
        s6_def s7_def)
  from assms have s: "sign (bf s Zr) = 0" "sign (bf s Zi) = 0" "sign (bf s Cr) = 0"
    "sign (bf s Ci) = 0"
    by (simp_all add: origin_signs_def)
  have t1: "sign (bf s1 Tmp1) = 0"
    unfolding s1_def using s(1) by (rule bf_sqr_sign_zero)
  have o1: "bf s1 q = bf s q" if "q \<noteq> Tmp1" for q
    unfolding s1_def using that by (rule bf_sqr_other)
  have t2: "sign (bf s2 Tmp2) = 0"
    unfolding s2_def using s(2) o1 [of Zi] by (intro bf_sqr_sign_zero) simp
  have o2: "bf s2 q = bf s1 q" if "q \<noteq> Tmp2" for q
    unfolding s2_def using that by (rule bf_sqr_other)
  have "sign (bf s2 Zr) = 0"
    using s(1) o1 [of Zr] o2 [of Zr] by simp
  then have p3: "sign (bf s3 Prod) = 0"
    unfolding s3_def by (intro bf_mul_sign_zero) simp_all
  have o3: "bf s3 q = bf s2 q" if "q \<noteq> Prod" for q
    unfolding s3_def using that by (rule bf_mul_other)
  have p4: "sign (bf s4 q) = sign (bf s3 q)" for q
    unfolding s4_def by (rule double_prod_loop_sign)
  have zi5: "sign (bf s5 Zi) = sign (bf s4 Ci)"
    unfolding s5_def using p3 p4 [of Prod] by (intro bf_add_sign_zero) simp
  have o5: "bf s5 q = bf s4 q" if "q \<noteq> Zi" for q
    unfolding s5_def using that by (rule bf_add_other)
  have sg5: "sign (bf s5 q) = sign (bf s q)" if "q \<noteq> Zi" "q \<noteq> Prod" "q \<noteq> Tmp1" "q \<noteq> Tmp2" for q
    using that o5 [of q] p4 [of q] o3 [of q] o2 [of q] o1 [of q] by simp
  have ci4: "sign (bf s4 Ci) = 0"
    using p4 [of Ci] o3 [of Ci] o2 [of Ci] o1 [of Ci] s(4) by simp
  have t1_5: "sign (bf s5 Tmp1) = 0"
    using o5 [of Tmp1] p4 [of Tmp1] o3 [of Tmp1] o2 [of Tmp1] t1 by simp
  have t2_5: "sign (bf s5 Tmp2) = 0"
    using o5 [of Tmp2] p4 [of Tmp2] o3 [of Tmp2] t2 by simp
  have t1_6: "sign (bf s6 Tmp1) = 0"
    unfolding s6_def using bf_sub_sign_zero [of Tmp1 s5 Tmp1 Tmp2] t1_5 t2_5 by simp
  have o6: "bf s6 q = bf s5 q" if "q \<noteq> Tmp1" "q \<noteq> Neg_b" for q
    unfolding s6_def using that by (rule bf_sub_other)
  have zr7: "sign (bf s7 Zr) = sign (bf s6 Cr)"
    unfolding s7_def using t1_6 by (rule bf_add_sign_zero)
  have o7: "bf s7 q = bf s6 q" if "q \<noteq> Zr" for q
    unfolding s7_def using that by (rule bf_add_other)
  have "sign (bf s7 Zr) = 0"
    using zr7 o6 [of Cr] sg5 [of Cr] s(3) by simp
  moreover have "sign (bf s7 Zi) = 0"
    using o7 [of Zi] o6 [of Zi] zi5 ci4 by simp
  moreover have "sign (bf s7 Cr) = 0"
    using o7 [of Cr] o6 [of Cr] sg5 [of Cr] s(3) by simp
  moreover have "sign (bf s7 Ci) = 0"
    using o7 [of Ci] o6 [of Ci] sg5 [of Ci] s(4) by simp
  ultimately show ?thesis
    by (simp add: origin_signs_def step)
qed

lemma origin_signs_funpow: "origin_signs s \<Longrightarrow> origin_signs ((z_step ^^ k) s)"
  by (induction k) (simp_all add: origin_signs_step)

lemma origin_signs_not_escaped: "origin_signs s \<Longrightarrow> \<not> bf_escaped Zr Zi t s \<or> t < 0"
  by (simp add: origin_signs_def bf_escaped_def bf_to_d_def Let_def fadd_def fmul_def)

lemma set_d_loop_other: "q \<noteq> r \<Longrightarrow> bf (set_d_loop r n k d s) q = bf s q"
  by (induction k arbitrary: d s) (simp_all add: Let_def)

lemma bf_set_d_other: "q \<noteq> r \<Longrightarrow> bf (bf_set_d r d n s) q = bf s q"
  by (simp add: bf_set_d_def Let_def set_d_loop_other)

lemma bf_from_str_other: "q \<noteq> r \<Longrightarrow> bf (bf_from_str r str n s) q = bf s q"
  by (simp add: bf_from_str_parsed Let_def bf_set_d_other split: prod.splits)

lemma parsed_zero: "parsed ''0'' = (False, 0, 0)"
  by (simp add: parsed_def skip_sign_def frac_part_def digit_val_def fadd_def fmul_def)

lemma bf_from_str_zero: "bf_from_str r ''0'' n s = bf_zero r n (bf_zero r n s)"
  by (simp add: bf_from_str_parsed parsed_zero fadd_def bf_set_d_def)

lemma setup_locals_origin: "origin_signs (setup_locals ''0'' ''0'' n s)"
  by (simp add: origin_signs_def setup_locals_def Let_def bf_from_str_zero)

text \<open>The loop of \<^verbatim>\<open>mandelbrot_iterate\<close> from index \<open>i\<close> in state \<open>s\<close>.\<close>

lemma iterate_loop_result:
  "(fst (iterate_loop m i s) = m \<and>
      (\<forall>k. int (i + k) < m \<longrightarrow> \<not> bf_escaped Zr Zi 4 ((z_step ^^ k) s))) \<or>
   (\<exists>j. fst (iterate_loop m i s) = int (i + j) \<and> int (i + j) < m \<and>
        bf_escaped Zr Zi 4 ((z_step ^^ j) s) \<and>
        (\<forall>k<j. \<not> bf_escaped Zr Zi 4 ((z_step ^^ k) s)))"
proof (induction m i s rule: iterate_loop.induct)
  case (1 m i s)
  show ?case
  proof (cases "int i < m")
    case False
    then have "fst (iterate_loop m i s) = m"
      by (subst iterate_loop.simps) simp
    moreover from False have "\<forall>k. int (i + k) < m \<longrightarrow> \<not> bf_escaped Zr Zi 4 ((z_step ^^ k) s)"
      by auto
    ultimately show ?thesis
      by blast
  next
    case True
    show ?thesis
    proof (cases "bf_escaped Zr Zi 4 s")
      case esc: True
      with True have "fst (iterate_loop m i s) = int (i + 0)"
        by (subst iterate_loop.simps) simp
      with True esc show ?thesis
        by (intro disjI2 exI [of _ 0]) simp
    next
      case noesc: False
      have unfold: "iterate_loop m i s = iterate_loop m (i + 1) (z_step s)"
        using True noesc by (subst iterate_loop.simps) (simp add: z_step_def)
      have shift: "(z_step ^^ k) (z_step s) = (z_step ^^ Suc k) s" for k
        by (simp add: funpow_swap1)
      from "1.IH" [OF True noesc] consider
        (never) "fst (iterate_loop m (i + 1) (z_step s)) = m"
          "\<forall>k. int (i + 1 + k) < m \<longrightarrow> \<not> bf_escaped Zr Zi 4 ((z_step ^^ k) (z_step s))"
        | (at) j where "fst (iterate_loop m (i + 1) (z_step s)) = int (i + 1 + j)"
          "int (i + 1 + j) < m" "bf_escaped Zr Zi 4 ((z_step ^^ j) (z_step s))"
          "\<forall>k<j. \<not> bf_escaped Zr Zi 4 ((z_step ^^ k) (z_step s))"
        unfolding z_step_def by blast
      then show ?thesis
      proof cases
        case never
        have "\<not> bf_escaped Zr Zi 4 ((z_step ^^ k) s)" if "int (i + k) < m" for k
        proof (cases k)
          case 0
          with noesc show ?thesis by simp
        next
          case (Suc k')
          with that never(2) have "\<not> bf_escaped Zr Zi 4 ((z_step ^^ k') (z_step s))"
            by simp
          then show ?thesis
            by (simp add: shift Suc)
        qed
        with never(1) unfold show ?thesis
          by simp
      next
        case at
        have "\<not> bf_escaped Zr Zi 4 ((z_step ^^ k) s)" if "k < Suc j" for k
        proof (cases k)
          case 0
          with noesc show ?thesis by simp
        next
          case (Suc k')
          with that at(4) have "\<not> bf_escaped Zr Zi 4 ((z_step ^^ k') (z_step s))"
            by simp
          then show ?thesis
            by (simp add: shift Suc)
        qed
        moreover have "bf_escaped Zr Zi 4 ((z_step ^^ Suc j) s)"
          using at(3) by (simp add: shift)
        moreover have "fst (iterate_loop m i s) = int (i + Suc j)" "int (i + Suc j) < m"
          using at(1,2) unfold by simp_all
        ultimately show ?thesis
          by (intro disjI2 exI [of _ "Suc j"]) blast
      qed
    qed
  qed
qed

lemma setup_locals_parts:
  fixes cr_str ci_str :: string and n :: nat and s :: state
  defines "s0 \<equiv> setup_locals cr_str ci_str n s"
  shows "bf s0 Cr = bf (bf_from_str Cr cr_str n s) Cr"
    and "bf s0 Ci = bf (bf_from_str Ci ci_str n (bf_from_str Cr cr_str n s)) Ci"
    and "sign (bf s0 Zr) = 0" and "nlimbs (bf s0 Zr) = n" and "i < n \<Longrightarrow> limb s0 Zr i = 0"
    and "sign (bf s0 Zi) = 0" and "nlimbs (bf s0 Zi) = n" and "i < n \<Longrightarrow> limb s0 Zi i = 0"
  unfolding s0_def
  by (simp_all add: setup_locals_def Let_def bf_from_str_other)

text \<open>
  C5.  \<^verbatim>\<open>mandelbrot_iterate\<close> parses both coordinates into \<open>Cr\<close> and \<open>Ci\<close>, starts from
  \<open>z = 0\<close> (sign 0 and \<open>n\<close> zero limbs in \<open>Zr\<close> and \<open>Zi\<close>) and steps with
  \<^verbatim>\<open>mandelbrot_step\<close>; \<open>st k\<close> is the state after \<open>k\<close> steps.  The value returned is
  \<open>max_iter\<close> when \<^verbatim>\<open>bf_escaped\<close> with threshold 4 is false at every \<open>st k\<close> with
  \<open>k < max_iter\<close>, and otherwise the first index below \<open>max_iter\<close> at which it is true: the
  test at index \<open>k\<close> comes before step \<open>k + 1\<close>.  For the coordinates \<open>0, 0\<close> the value
  returned is \<open>max_iter\<close>, for every \<open>max_iter\<close> and every limb count.
\<close>

theorem mandelbrot_iterate_first_escape:
  fixes cr_str ci_str :: string and max_iter :: int and n :: nat and s :: state
  defines "st \<equiv> z_state cr_str ci_str n s"
    and "res \<equiv> fst (mandelbrot_iterate cr_str ci_str max_iter n s)"
  shows "bf (st 0) Cr = bf (bf_from_str Cr cr_str n s) Cr \<and>
         bf (st 0) Ci = bf (bf_from_str Ci ci_str n (bf_from_str Cr cr_str n s)) Ci \<and>
         sign (bf (st 0) Zr) = 0 \<and> nlimbs (bf (st 0) Zr) = n \<and> (\<forall>i<n. limb (st 0) Zr i = 0) \<and>
         sign (bf (st 0) Zi) = 0 \<and> nlimbs (bf (st 0) Zi) = n \<and> (\<forall>i<n. limb (st 0) Zi i = 0) \<and>
         (\<forall>k. st (Suc k) = mandelbrot_step Zr Zi Cr Ci Tmp1 Tmp2 (st k)) \<and>
         ((res = max_iter \<and> (\<forall>k. int k < max_iter \<longrightarrow> \<not> bf_escaped Zr Zi 4 (st k))) \<or>
          (0 \<le> res \<and> res < max_iter \<and> bf_escaped Zr Zi 4 (st (nat res)) \<and>
           (\<forall>k < nat res. \<not> bf_escaped Zr Zi 4 (st k)))) \<and>
         fst (mandelbrot_iterate ''0'' ''0'' max_iter n s) = max_iter"
proof -
  have st0: "st 0 = setup_locals cr_str ci_str n s"
    by (simp add: st_def z_state_def)
  have stk: "st k = (z_step ^^ k) (setup_locals cr_str ci_str n s)" for k
    by (simp add: st_def z_state_def)
  have suc: "st (Suc k) = mandelbrot_step Zr Zi Cr Ci Tmp1 Tmp2 (st k)" for k
    by (simp add: stk z_step_def)
  have res: "res = fst (iterate_loop max_iter 0 (setup_locals cr_str ci_str n s))"
    by (simp add: res_def mandelbrot_iterate_def)
  have loop: "(res = max_iter \<and> (\<forall>k. int k < max_iter \<longrightarrow> \<not> bf_escaped Zr Zi 4 (st k))) \<or>
          (0 \<le> res \<and> res < max_iter \<and> bf_escaped Zr Zi 4 (st (nat res)) \<and>
           (\<forall>k < nat res. \<not> bf_escaped Zr Zi 4 (st k)))"
    using iterate_loop_result [of max_iter 0 "setup_locals cr_str ci_str n s"]
    unfolding res stk by auto
  have "fst (iterate_loop max_iter 0 (setup_locals ''0'' ''0'' n s)) = max_iter"
  proof -
    have "\<not> bf_escaped Zr Zi 4 ((z_step ^^ j) (setup_locals ''0'' ''0'' n s))" for j
      using origin_signs_not_escaped [OF origin_signs_funpow [OF setup_locals_origin], of 4 j n s]
      by simp
    with iterate_loop_result [of max_iter 0 "setup_locals ''0'' ''0'' n s"] show ?thesis
      by blast
  qed
  then have origin: "fst (mandelbrot_iterate ''0'' ''0'' max_iter n s) = max_iter"
    by (simp add: mandelbrot_iterate_def)
  show ?thesis
    using setup_locals_parts [where cr_str = cr_str and ci_str = ci_str and n = n and s = s]
      suc loop origin
    unfolding st0 [symmetric] by blast
qed

theorem mandelbrot_iterate_first_escape_witness:
  "fst (mandelbrot_iterate ''0'' ''0'' 3 2 zero_state) = 3 \<and>
   \<not> bf_escaped Zr Zi 4 (z_state ''0'' ''0'' 2 zero_state 0) \<and>
   \<not> bf_escaped Zr Zi 4 (z_state ''0'' ''0'' 2 zero_state 1) \<and>
   \<not> bf_escaped Zr Zi 4 (z_state ''0'' ''0'' 2 zero_state 2)"
proof -
  note th = mandelbrot_iterate_first_escape
    [where cr_str = "''0''" and ci_str = "''0''" and n = 2 and s = zero_state and max_iter = 3]
  from th have r: "fst (mandelbrot_iterate ''0'' ''0'' 3 2 zero_state) = 3"
    by blast
  from th have "(fst (mandelbrot_iterate ''0'' ''0'' 3 2 zero_state) = 3 \<and>
      (\<forall>k. int k < 3 \<longrightarrow> \<not> bf_escaped Zr Zi 4 (z_state ''0'' ''0'' 2 zero_state k))) \<or>
      (0 \<le> fst (mandelbrot_iterate ''0'' ''0'' 3 2 zero_state) \<and>
       fst (mandelbrot_iterate ''0'' ''0'' 3 2 zero_state) < 3 \<and>
       bf_escaped Zr Zi 4 (z_state ''0'' ''0'' 2 zero_state
         (nat (fst (mandelbrot_iterate ''0'' ''0'' 3 2 zero_state)))) \<and>
       (\<forall>k < nat (fst (mandelbrot_iterate ''0'' ''0'' 3 2 zero_state)).
          \<not> bf_escaped Zr Zi 4 (z_state ''0'' ''0'' 2 zero_state k)))"
    by blast
  with r have "\<forall>k. int k < 3 \<longrightarrow> \<not> bf_escaped Zr Zi 4 (z_state ''0'' ''0'' 2 zero_state k)"
    by simp
  then have "\<not> bf_escaped Zr Zi 4 (z_state ''0'' ''0'' 2 zero_state 0)"
    "\<not> bf_escaped Zr Zi 4 (z_state ''0'' ''0'' 2 zero_state 1)"
    "\<not> bf_escaped Zr Zi 4 (z_state ''0'' ''0'' 2 zero_state 2)"
    by simp_all
  with r show ?thesis
    by blast
qed

lemma funpow_shift: "(f ^^ k) (f s) = (f ^^ Suc k) s"
  by (simp add: funpow_swap1)

lemma record_z_simps [simp]:
  "orbit_re_out (record_z k s ob) j = (if j = k then bf_to_d Zr s else orbit_re_out ob j)"
  "orbit_im_out (record_z k s ob) j = (if j = k then bf_to_d Zi s else orbit_im_out ob j)"
  "escape_iter (record_z k s ob) = escape_iter ob"
  by (simp_all add: record_z_def)

lemma orbit_loop_step:
  "int i < m \<Longrightarrow>
   orbit_loop m i ob s =
     (if orbit_escaped (z_step s)
      then (int i + 1, (record_z (i + 1) (z_step s) ob)\<lparr>escape_iter := int i + 1\<rparr>, z_step s)
      else orbit_loop m (i + 1) (record_z (i + 1) (z_step s) ob) (z_step s))"
  by (subst orbit_loop.simps) (simp add: Let_def z_step_def orbit_escaped_def record_z_def)

lemma orbit_loop_exit: "\<not> int i < m \<Longrightarrow> orbit_loop m i ob s = (m, ob, s)"
  by (subst orbit_loop.simps) simp

lemma orbit_loop_below:
  "k \<le> i \<Longrightarrow>
   orbit_re_out (fst (snd (orbit_loop m i ob s))) k = orbit_re_out ob k \<and>
   orbit_im_out (fst (snd (orbit_loop m i ob s))) k = orbit_im_out ob k"
proof (induction "nat (m - int i)" arbitrary: i ob s)
  case 0
  then have "\<not> int i < m" by simp
  then show ?case
    by (simp add: orbit_loop_exit)
next
  case (Suc d)
  then have lt: "int i < m" by linarith
  show ?case
  proof (cases "orbit_escaped (z_step s)")
    case True
    with lt Suc.prems show ?thesis
      by (simp add: orbit_loop_step)
  next
    case False
    have "d = nat (m - int (i + 1))"
      using Suc.hyps(2) by linarith
    from Suc.hyps(1) [OF this, of "record_z (i + 1) (z_step s) ob" "z_step s"] Suc.prems
    show ?thesis
      using lt False by (simp add: orbit_loop_step)
  qed
qed

text \<open>The return value and the escape index of the loop started at index \<open>i\<close>.\<close>

lemma orbit_loop_result:
  "(fst (orbit_loop m i ob s) = m \<and> escape_iter (fst (snd (orbit_loop m i ob s))) = escape_iter ob \<and>
      (\<forall>j. int (i + j) < m \<longrightarrow> \<not> orbit_escaped ((z_step ^^ Suc j) s))) \<or>
   (\<exists>j. int (i + j) < m \<and> fst (orbit_loop m i ob s) = int (i + j) + 1 \<and>
        escape_iter (fst (snd (orbit_loop m i ob s))) = int (i + j) + 1 \<and>
        orbit_escaped ((z_step ^^ Suc j) s) \<and>
        (\<forall>k<j. \<not> orbit_escaped ((z_step ^^ Suc k) s)))"
proof (induction "nat (m - int i)" arbitrary: i ob s)
  case 0
  then have "\<not> int i < m" by simp
  then show ?case
    by (auto simp: orbit_loop_exit)
next
  case (Suc d)
  then have lt: "int i < m" by linarith
  show ?case
  proof (cases "orbit_escaped (z_step s)")
    case True
    with lt show ?thesis
      by (intro disjI2 exI [of _ 0]) (simp add: orbit_loop_step)
  next
    case False
    define ob2 where "ob2 = record_z (i + 1) (z_step s) ob"
    have unfold: "orbit_loop m i ob s = orbit_loop m (i + 1) ob2 (z_step s)"
      using lt False by (simp add: orbit_loop_step ob2_def)
    have d: "d = nat (m - int (i + 1))"
      using Suc.hyps(2) by linarith
    from Suc.hyps(1) [OF d, of ob2 "z_step s"] consider
      (never) "fst (orbit_loop m (i + 1) ob2 (z_step s)) = m"
        "escape_iter (fst (snd (orbit_loop m (i + 1) ob2 (z_step s)))) = escape_iter ob2"
        "\<forall>j. int (i + 1 + j) < m \<longrightarrow> \<not> orbit_escaped ((z_step ^^ Suc j) (z_step s))"
      | (at) j where "int (i + 1 + j) < m"
        "fst (orbit_loop m (i + 1) ob2 (z_step s)) = int (i + 1 + j) + 1"
        "escape_iter (fst (snd (orbit_loop m (i + 1) ob2 (z_step s)))) = int (i + 1 + j) + 1"
        "orbit_escaped ((z_step ^^ Suc j) (z_step s))"
        "\<forall>k<j. \<not> orbit_escaped ((z_step ^^ Suc k) (z_step s))"
      by blast
    then show ?thesis
    proof cases
      case never
      have "\<not> orbit_escaped ((z_step ^^ Suc j) s)" if "int (i + j) < m" for j
      proof (cases j)
        case 0
        with False show ?thesis by simp
      next
        case (Suc j')
        with that never(3) have "\<not> orbit_escaped ((z_step ^^ Suc j') (z_step s))"
          by simp
        then show ?thesis
          unfolding funpow_shift Suc .
      qed
      with never(1,2) show ?thesis
        unfolding unfold by (intro disjI1) (simp add: ob2_def)
    next
      case at
      have "\<not> orbit_escaped ((z_step ^^ Suc k) s)" if "k < Suc j" for k
      proof (cases k)
        case 0
        with False show ?thesis by simp
      next
        case (Suc k')
        with that at(5) have "\<not> orbit_escaped ((z_step ^^ Suc k') (z_step s))"
          by simp
        then show ?thesis
          unfolding funpow_shift Suc .
      qed
      moreover have "orbit_escaped ((z_step ^^ Suc (Suc j)) s)"
        using at(4) unfolding funpow_shift .
      ultimately show ?thesis
        unfolding unfold using at(1,2,3)
        by (intro disjI2 exI [of _ "Suc j"]) simp
    qed
  qed
qed

text \<open>Every index up to the return value holds the converted \<open>z\<close> after that many steps.\<close>

lemma orbit_loop_recorded:
  "int (i + j) < fst (orbit_loop m i ob s) \<Longrightarrow>
   orbit_re_out (fst (snd (orbit_loop m i ob s))) (i + j + 1) = bf_to_d Zr ((z_step ^^ Suc j) s) \<and>
   orbit_im_out (fst (snd (orbit_loop m i ob s))) (i + j + 1) = bf_to_d Zi ((z_step ^^ Suc j) s)"
proof (induction "nat (m - int i)" arbitrary: i j ob s)
  case 0
  then have "\<not> int i < m" by simp
  with "0.prems" show ?case
    by (simp add: orbit_loop_exit)
next
  case (Suc d)
  then have lt: "int i < m" by linarith
  show ?case
  proof (cases "orbit_escaped (z_step s)")
    case True
    with lt Suc.prems have "j = 0"
      by (simp add: orbit_loop_step)
    with lt True show ?thesis
      by (simp add: orbit_loop_step)
  next
    case False
    define ob2 where "ob2 = record_z (i + 1) (z_step s) ob"
    have unfold: "orbit_loop m i ob s = orbit_loop m (i + 1) ob2 (z_step s)"
      using lt False by (simp add: orbit_loop_step ob2_def)
    have d: "d = nat (m - int (i + 1))"
      using Suc.hyps(2) by linarith
    show ?thesis
    proof (cases j)
      case 0
      from orbit_loop_below [of "i + 1" "i + 1" m ob2 "z_step s"] show ?thesis
        unfolding unfold by (simp add: 0 ob2_def)
    next
      case (Suc j')
      with Suc.prems have "int (i + 1 + j') < fst (orbit_loop m (i + 1) ob2 (z_step s))"
        unfolding unfold by simp
      from Suc.hyps(1) [OF d this] show ?thesis
        unfolding unfold funpow_shift by (simp add: Suc)
    qed
  qed
qed

lemma origin_signs_to_d: "origin_signs s \<Longrightarrow> bf_to_d Zr s = 0 \<and> bf_to_d Zi s = 0"
  by (simp add: origin_signs_def bf_to_d_def)

lemma origin_signs_not_orbit_escaped: "origin_signs s \<Longrightarrow> \<not> orbit_escaped s"
  by (simp add: orbit_escaped_def origin_signs_to_d fadd_def fmul_def)

text \<open>
  The orbit buffers.  \<^verbatim>\<open>compute_reference_orbit\<close> stores \<open>(0, 0)\<close> at index 0 and, at
  every index \<open>k\<close> from 1 to the value it returns, the pair \<^verbatim>\<open>bf_to_d\<close> gives for \<open>zr\<close>
  and \<open>zi\<close> after \<open>k\<close> steps.  Its escape test is \<open>|z|\<^sup>2 > 10 ^ 16\<close> (\<open>big k\<close>) on those
  doubles, and the value returned and \<open>escape_iter\<close> follow the first step that passes the
  test, if there is one.
\<close>

lemma compute_reference_orbit_records:
  fixes cr_str ci_str :: string and max_iter :: int and n :: nat and ob :: orbit_bufs
    and s :: state
  defines "st \<equiv> z_state cr_str ci_str n s"
    and "ret \<equiv> fst (compute_reference_orbit cr_str ci_str max_iter n ob s)"
    and "ob' \<equiv> fst (snd (compute_reference_orbit cr_str ci_str max_iter n ob s))"
  defines "big \<equiv> \<lambda>k. 10 ^ 16 < fadd (fmul (bf_to_d Zr (st k)) (bf_to_d Zr (st k)))
                                    (fmul (bf_to_d Zi (st k)) (bf_to_d Zi (st k)))"
  shows "orbit_re_out ob' 0 = 0 \<and> orbit_im_out ob' 0 = 0 \<and>
         (\<forall>k. 1 \<le> k \<and> int k \<le> ret \<longrightarrow>
              orbit_re_out ob' k = bf_to_d Zr (st k) \<and> orbit_im_out ob' k = bf_to_d Zi (st k)) \<and>
         ((ret = max_iter \<and> escape_iter ob' = - 1 \<and>
           (\<forall>k. 1 \<le> k \<and> int k \<le> max_iter \<longrightarrow> \<not> big k)) \<or>
          (\<exists>j. 1 \<le> j \<and> int j \<le> max_iter \<and> ret = int j \<and> escape_iter ob' = int j \<and> big j \<and>
               (\<forall>k. 1 \<le> k \<and> k < j \<longrightarrow> \<not> big k)))"
proof -
  define s0 where "s0 = setup_locals cr_str ci_str n s"
  define ob0 where "ob0 = ob\<lparr>orbit_re_out := (orbit_re_out ob)(0 := 0),
    orbit_im_out := (orbit_im_out ob)(0 := 0), escape_iter := - 1\<rparr>"
  have run: "compute_reference_orbit cr_str ci_str max_iter n ob s = orbit_loop max_iter 0 ob0 s0"
    by (simp add: compute_reference_orbit_def Let_def s0_def ob0_def)
  have stk: "st k = (z_step ^^ k) s0" for k
    by (simp add: st_def z_state_def s0_def)
  have bigk: "big k \<longleftrightarrow> orbit_escaped (st k)" for k
    by (simp add: big_def orbit_escaped_def)
  have ret: "ret = fst (orbit_loop max_iter 0 ob0 s0)"
    and ob': "ob' = fst (snd (orbit_loop max_iter 0 ob0 s0))"
    by (simp_all add: ret_def ob'_def run)
  have zero: "orbit_re_out ob' 0 = 0 \<and> orbit_im_out ob' 0 = 0"
    using orbit_loop_below [of 0 0 max_iter ob0 s0] by (simp add: ob' ob0_def)
  have rec: "orbit_re_out ob' k = bf_to_d Zr (st k) \<and> orbit_im_out ob' k = bf_to_d Zi (st k)"
    if "1 \<le> k \<and> int k \<le> ret" for k
  proof -
    from that obtain j where k: "k = Suc j"
      by (cases k) auto
    with that have "int (0 + j) < fst (orbit_loop max_iter 0 ob0 s0)"
      by (simp add: ret)
    from orbit_loop_recorded [OF this] show ?thesis
      by (simp add: ob' k stk)
  qed
  from orbit_loop_result [of max_iter 0 ob0 s0] consider
    (never) "ret = max_iter" "escape_iter ob' = escape_iter ob0"
      "\<forall>j. int (0 + j) < max_iter \<longrightarrow> \<not> orbit_escaped ((z_step ^^ Suc j) s0)"
    | (at) j where "int (0 + j) < max_iter" "ret = int (0 + j) + 1"
      "escape_iter ob' = int (0 + j) + 1" "orbit_escaped ((z_step ^^ Suc j) s0)"
      "\<forall>k<j. \<not> orbit_escaped ((z_step ^^ Suc k) s0)"
    unfolding ret ob' by blast
  then have res: "(ret = max_iter \<and> escape_iter ob' = - 1 \<and>
           (\<forall>k. 1 \<le> k \<and> int k \<le> max_iter \<longrightarrow> \<not> big k)) \<or>
          (\<exists>j. 1 \<le> j \<and> int j \<le> max_iter \<and> ret = int j \<and> escape_iter ob' = int j \<and> big j \<and>
               (\<forall>k. 1 \<le> k \<and> k < j \<longrightarrow> \<not> big k))"
  proof cases
    case never
    have "\<not> big k" if "1 \<le> k \<and> int k \<le> max_iter" for k
    proof -
      from that obtain j where k: "k = Suc j"
        by (cases k) auto
      with that never(3) show ?thesis
        by (simp add: bigk stk)
    qed
    with never(1,2) show ?thesis
      by (simp add: ob0_def)
  next
    case at
    have "\<not> big k" if "1 \<le> k \<and> k < Suc j" for k
    proof -
      from that obtain k' where k: "k = Suc k'"
        by (cases k) auto
      with that at(5) show ?thesis
        by (simp add: bigk stk)
    qed
    moreover have "big (Suc j)"
      using at(4) by (simp add: bigk stk)
    ultimately show ?thesis
      using at(1,2,3) by (intro disjI2 exI [of _ "Suc j"]) simp
  qed
  from zero rec res show ?thesis
    by blast
qed

lemma compute_reference_orbit_records_instance:
  "(let R = compute_reference_orbit ''0'' ''0'' 3 2 garbage_bufs zero_state
    in fst R = 3 \<and> escape_iter (fst (snd R)) = - 1 \<and>
       map (orbit_re_out (fst (snd R))) [0, 1, 2, 3] = [0, 0, 0, 0] \<and>
       map (orbit_im_out (fst (snd R))) [0, 1, 2, 3] = [0, 0, 0, 0])"
proof -
  define R where "R = compute_reference_orbit ''0'' ''0'' 3 2 garbage_bufs zero_state"
  have o: "origin_signs (z_state ''0'' ''0'' 2 zero_state k)" for k
    unfolding z_state_def by (intro origin_signs_funpow setup_locals_origin)
  have zr: "bf_to_d Zr (z_state ''0'' ''0'' 2 zero_state k) = 0"
    and zi: "bf_to_d Zi (z_state ''0'' ''0'' 2 zero_state k) = 0" for k
    using origin_signs_to_d [OF o [of k]] by simp_all
  have small: "\<not> (10 ^ 16 < fadd (fmul 0 0) (fmul 0 0))"
    by (simp add: fadd_def fmul_def)
  note th = compute_reference_orbit_records
    [where cr_str = "''0''" and ci_str = "''0''" and max_iter = 3 and n = 2
       and ob = garbage_bufs and s = zero_state, folded R_def, unfolded zr zi]
  note zero = th [THEN conjunct1] th [THEN conjunct2, THEN conjunct1]
  note rec = th [THEN conjunct2, THEN conjunct2, THEN conjunct1, THEN spec, THEN mp]
  note res = th [THEN conjunct2, THEN conjunct2, THEN conjunct2]
  from res small have r: "fst R = 3" "escape_iter (fst (snd R)) = - 1"
    by blast+
  have "1 \<le> (1::nat) \<and> int 1 \<le> fst R" "1 \<le> (2::nat) \<and> int 2 \<le> fst R"
    "1 \<le> (3::nat) \<and> int 3 \<le> fst R"
    by (simp_all add: r)
  note rec [OF this(1)] rec [OF this(2)] rec [OF this(3)]
  with zero r show ?thesis
    unfolding Let_def R_def [symmetric] by simp
qed

lemma record_z2_simps [simp]:
  "orbit_z2_re_out (record_z2 i s ob zb) j =
     (if j = i + 1 then fsub (bf_to_d Z2r s) (bf_to_d Z2i s) else orbit_z2_re_out zb j)"
  "orbit_z2_im_out (record_z2 i s ob zb) j =
     (if j = i + 1 then fmul (fmul 2 (orbit_re_out ob i)) (orbit_im_out ob i)
      else orbit_z2_im_out zb j)"
  by (simp_all add: record_z2_def)

lemma to_d_loop_cong:
  "bf s a = bf s' a \<Longrightarrow> to_d_loop a n k res scale s = to_d_loop a n k res scale s'"
  by (induction k arbitrary: res scale) (simp_all add: limb_def Let_def)

lemma bf_to_d_cong: "bf s a = bf s' a \<Longrightarrow> bf_to_d a s = bf_to_d a s'"
  using to_d_loop_cong [of s a s'] by (simp add: bf_to_d_def)

lemma bf_to_d_x_step:
  "bf_to_d Z2r (x_step s) = bf_to_d Z2r (squares s)"
  "bf_to_d Z2i (x_step s) = bf_to_d Z2i (squares s)"
  unfolding x_step_def by (rule bf_to_d_cong, simp add: z_step_other)+

lemma orbit_ext_loop_step:
  "int i < m \<Longrightarrow>
   orbit_ext_loop m i ob zb s =
     (if orbit_escaped (x_step s)
      then (int i + 1, (record_z (i + 1) (x_step s) ob)\<lparr>escape_iter := int i + 1\<rparr>,
            record_z2 i (x_step s) (record_z (i + 1) (x_step s) ob) zb, x_step s)
      else orbit_ext_loop m (i + 1) (record_z (i + 1) (x_step s) ob)
             (record_z2 i (x_step s) (record_z (i + 1) (x_step s) ob) zb) (x_step s))"
  by (subst orbit_ext_loop.simps)
    (simp add: Let_def z_step_def x_step_def squares_def orbit_escaped_def record_z_def
      record_z2_def)

lemma orbit_ext_loop_exit: "\<not> int i < m \<Longrightarrow> orbit_ext_loop m i ob zb s = (m, ob, zb, s)"
  by (subst orbit_ext_loop.simps) simp

lemma orbit_ext_loop_below:
  "k \<le> i \<Longrightarrow>
   orbit_re_out (fst (snd (orbit_ext_loop m i ob zb s))) k = orbit_re_out ob k \<and>
   orbit_im_out (fst (snd (orbit_ext_loop m i ob zb s))) k = orbit_im_out ob k \<and>
   orbit_z2_re_out (fst (snd (snd (orbit_ext_loop m i ob zb s)))) k = orbit_z2_re_out zb k \<and>
   orbit_z2_im_out (fst (snd (snd (orbit_ext_loop m i ob zb s)))) k = orbit_z2_im_out zb k"
proof (induction "nat (m - int i)" arbitrary: i ob zb s)
  case 0
  then have "\<not> int i < m" by simp
  then show ?case
    by (simp add: orbit_ext_loop_exit)
next
  case (Suc d)
  then have lt: "int i < m" by linarith
  show ?case
  proof (cases "orbit_escaped (x_step s)")
    case True
    with lt Suc.prems show ?thesis
      by (simp add: orbit_ext_loop_step)
  next
    case False
    have "d = nat (m - int (i + 1))"
      using Suc.hyps(2) by linarith
    from Suc.hyps(1) [OF this, of "record_z (i + 1) (x_step s) ob"
        "record_z2 i (x_step s) (record_z (i + 1) (x_step s) ob) zb" "x_step s"] Suc.prems
    show ?thesis
      using lt False by (simp add: orbit_ext_loop_step)
  qed
qed

lemma orbit_ext_loop_never:
  "(\<And>j. \<not> orbit_escaped ((x_step ^^ Suc j) s)) \<Longrightarrow> fst (orbit_ext_loop m i ob zb s) = m"
proof (induction "nat (m - int i)" arbitrary: i ob zb s)
  case 0
  then have "\<not> int i < m" by simp
  then show ?case
    by (simp add: orbit_ext_loop_exit)
next
  case (Suc d)
  then have lt: "int i < m" by linarith
  have ne: "\<not> orbit_escaped (x_step s)"
    using Suc.prems [of 0] by simp
  have d: "d = nat (m - int (i + 1))"
    using Suc.hyps(2) by linarith
  have "\<not> orbit_escaped ((x_step ^^ Suc j) (x_step s))" for j
    using Suc.prems [of "Suc j"] unfolding funpow_shift .
  from Suc.hyps(1) [OF d this] show ?case
    using lt ne by (simp add: orbit_ext_loop_step)
qed

lemma orbit_ext_loop_recorded:
  fixes m :: int and i j :: nat and ob :: orbit_bufs and zb :: z2_bufs and s :: state
  defines "R \<equiv> orbit_ext_loop m i ob zb s"
  assumes "int (i + j) < fst R"
  shows "orbit_re_out (fst (snd R)) (i + j + 1) = bf_to_d Zr ((x_step ^^ Suc j) s) \<and>
     orbit_im_out (fst (snd R)) (i + j + 1) = bf_to_d Zi ((x_step ^^ Suc j) s) \<and>
     orbit_z2_re_out (fst (snd (snd R))) (i + j + 1) =
       fsub (bf_to_d Z2r ((x_step ^^ Suc j) s)) (bf_to_d Z2i ((x_step ^^ Suc j) s)) \<and>
     orbit_z2_im_out (fst (snd (snd R))) (i + j + 1) =
       fmul (fmul 2 (orbit_re_out (fst (snd R)) (i + j))) (orbit_im_out (fst (snd R)) (i + j))"
  using assms(2) unfolding R_def
proof (induction "nat (m - int i)" arbitrary: i j ob zb s)
  case 0
  then have "\<not> int i < m" by simp
  with "0.prems" show ?case
    by (simp add: orbit_ext_loop_exit)
next
  case (Suc d)
  then have lt: "int i < m" by linarith
  define ob2 where "ob2 = record_z (i + 1) (x_step s) ob"
  define zb2 where "zb2 = record_z2 i (x_step s) ob2 zb"
  show ?case
  proof (cases "orbit_escaped (x_step s)")
    case True
    with lt Suc.prems have "j = 0"
      by (simp add: orbit_ext_loop_step)
    with lt True show ?thesis
      by (simp add: orbit_ext_loop_step)
  next
    case False
    have unfold: "orbit_ext_loop m i ob zb s = orbit_ext_loop m (i + 1) ob2 zb2 (x_step s)"
      using lt False by (simp add: orbit_ext_loop_step ob2_def zb2_def)
    have d: "d = nat (m - int (i + 1))"
      using Suc.hyps(2) by linarith
    show ?thesis
    proof (cases j)
      case 0
      from orbit_ext_loop_below [of "i + 1" "i + 1" m ob2 zb2 "x_step s"]
        orbit_ext_loop_below [of i "i + 1" m ob2 zb2 "x_step s"]
      show ?thesis
        unfolding unfold by (simp add: 0 ob2_def zb2_def)
    next
      case (Suc j')
      with Suc.prems have "int (i + 1 + j') < fst (orbit_ext_loop m (i + 1) ob2 zb2 (x_step s))"
        unfolding unfold by simp
      from Suc.hyps(1) [OF d this] show ?thesis
        unfolding unfold funpow_shift by (simp add: Suc)
    qed
  qed
qed

lemma origin_signs_squares:
  assumes "origin_signs s"
  shows "origin_signs (squares s)"
    and "sign (bf (squares s) Z2r) = 0" and "sign (bf (squares s) Z2i) = 0"
proof -
  have o: "bf (squares s) q = bf s q" if "q \<noteq> Z2r" "q \<noteq> Z2i" for q
    using that by (simp add: squares_def bf_sqr_other)
  from assms show "origin_signs (squares s)"
    by (simp add: origin_signs_def o)
  have "sign (bf (bf_sqr Z2r Zr s) Z2r) = 0"
    using assms by (intro bf_sqr_sign_zero) (simp add: origin_signs_def)
  then show "sign (bf (squares s) Z2r) = 0"
    by (simp add: squares_def bf_sqr_other)
  have "sign (bf (bf_sqr Z2r Zr s) Zi) = 0"
    using assms by (simp add: bf_sqr_other origin_signs_def)
  then show "sign (bf (squares s) Z2i) = 0"
    unfolding squares_def by (rule bf_sqr_sign_zero)
qed

lemma origin_signs_x_step: "origin_signs s \<Longrightarrow> origin_signs (x_step s)"
  by (simp add: x_step_def origin_signs_step origin_signs_squares(1))

lemma origin_signs_x_funpow: "origin_signs s \<Longrightarrow> origin_signs ((x_step ^^ k) s)"
  by (induction k) (simp_all add: origin_signs_x_step)

lemma x_state_origin: "origin_signs (x_state ''0'' ''0'' n s k)"
proof -
  have "origin_signs (set_nlimbs Z2i n (set_nlimbs Z2r n (setup_locals ''0'' ''0'' n s)))"
    using setup_locals_origin [of n s] by (simp add: origin_signs_def)
  then show ?thesis
    unfolding x_state_def by (rule origin_signs_x_funpow)
qed

text \<open>
  C7.  In \<^verbatim>\<open>compute_reference_orbit_extended\<close>, \<open>xst k\<close> is the state before step
  \<open>k + 1\<close>.  For every recorded index \<open>k + 1\<close>: the imaginary part stored for \<open>z\<^sup>2\<close> is
  \<open>2 * orbit_re[k] * orbit_im[k]\<close> in doubles, where \<open>orbit_re[k], orbit_im[k]\<close> are the
  converted \<open>zr, zi\<close> of \<open>xst k\<close>, the orbit entry of the previous index and not the
  entry \<open>k + 1\<close> stored in the same pass; the real part stored is the converted fixed-point
  square of \<open>zr\<close> minus the converted fixed-point square of \<open>zi\<close>, both squares taken
  of \<open>xst k\<close>, before the step.
\<close>

theorem compute_reference_orbit_extended_z2:
  fixes cr_str ci_str :: string and max_iter :: int and n :: nat and ob :: orbit_bufs
    and zb :: z2_bufs and s :: state
  defines "xst \<equiv> x_state cr_str ci_str n s"
    and "ret \<equiv> fst (compute_reference_orbit_extended cr_str ci_str max_iter n ob zb s)"
    and "ob' \<equiv> fst (snd (compute_reference_orbit_extended cr_str ci_str max_iter n ob zb s))"
    and "zb' \<equiv> fst (snd (snd (compute_reference_orbit_extended cr_str ci_str max_iter n ob zb s)))"
  shows "\<forall>k. int k < ret \<longrightarrow>
           xst (k + 1) = mandelbrot_step Zr Zi Cr Ci Tmp1 Tmp2 (bf_sqr Z2i Zi (bf_sqr Z2r Zr (xst k))) \<and>
           orbit_re_out ob' k = bf_to_d Zr (xst k) \<and> orbit_im_out ob' k = bf_to_d Zi (xst k) \<and>
           orbit_re_out ob' (k + 1) = bf_to_d Zr (xst (k + 1)) \<and>
           orbit_im_out ob' (k + 1) = bf_to_d Zi (xst (k + 1)) \<and>
           orbit_z2_im_out zb' (k + 1) = fmul (fmul 2 (orbit_re_out ob' k)) (orbit_im_out ob' k) \<and>
           orbit_z2_re_out zb' (k + 1) =
             fsub (bf_to_d Z2r (bf_sqr Z2i Zi (bf_sqr Z2r Zr (xst k))))
                  (bf_to_d Z2i (bf_sqr Z2i Zi (bf_sqr Z2r Zr (xst k))))"
proof (intro allI impI)
  fix k
  assume k: "int k < ret"
  define s0 where "s0 = set_nlimbs Z2i n (set_nlimbs Z2r n (setup_locals cr_str ci_str n s))"
  define ob0 where "ob0 = ob\<lparr>orbit_re_out := (orbit_re_out ob)(0 := 0),
    orbit_im_out := (orbit_im_out ob)(0 := 0), escape_iter := - 1\<rparr>"
  define zb0 where "zb0 = zb\<lparr>orbit_z2_re_out := (orbit_z2_re_out zb)(0 := 0),
    orbit_z2_im_out := (orbit_z2_im_out zb)(0 := 0)\<rparr>"
  define R where "R = orbit_ext_loop max_iter 0 ob0 zb0 s0"
  have run: "compute_reference_orbit_extended cr_str ci_str max_iter n ob zb s = R"
    by (simp add: compute_reference_orbit_extended_def Let_def s0_def ob0_def zb0_def R_def)
  have ret: "ret = fst R" and ob': "ob' = fst (snd R)" and zb': "zb' = fst (snd (snd R))"
    by (simp_all add: ret_def ob'_def zb'_def run)
  have xst: "xst j = (x_step ^^ j) s0" for j
    by (simp add: xst_def x_state_def s0_def)
  have suc: "xst (k + 1) = mandelbrot_step Zr Zi Cr Ci Tmp1 Tmp2 (bf_sqr Z2i Zi (bf_sqr Z2r Zr (xst k)))"
    by (simp add: xst x_step_def z_step_def squares_def)
  have sq: "bf_sqr Z2i Zi (bf_sqr Z2r Zr (xst k)) = squares (xst k)"
    by (simp add: squares_def)
  from k have "int (0 + k) < fst (orbit_ext_loop max_iter 0 ob0 zb0 s0)"
    by (simp add: ret R_def)
  note rec = orbit_ext_loop_recorded [OF this, folded R_def]
  have prev: "orbit_re_out ob' k = bf_to_d Zr (xst k) \<and> orbit_im_out ob' k = bf_to_d Zi (xst k)"
  proof (cases k)
    case 0
    have "sign (bf s0 Zr) = 0" "sign (bf s0 Zi) = 0"
      by (simp_all add: s0_def setup_locals_def Let_def)
    then have "bf_to_d Zr (xst 0) = 0" "bf_to_d Zi (xst 0) = 0"
      by (simp_all add: xst bf_to_d_def)
    moreover have "orbit_re_out ob' 0 = 0" "orbit_im_out ob' 0 = 0"
      using orbit_ext_loop_below [of 0 0 max_iter ob0 zb0 s0]
      by (simp_all add: ob' R_def ob0_def)
    ultimately show ?thesis
      by (simp add: 0)
  next
    case (Suc k')
    with k have "int (0 + k') < fst (orbit_ext_loop max_iter 0 ob0 zb0 s0)"
      by (simp add: ret R_def)
    from orbit_ext_loop_recorded [OF this, folded R_def] show ?thesis
      by (simp add: ob' Suc xst)
  qed
  have z2: "bf_to_d Z2r (xst (k + 1)) = bf_to_d Z2r (squares (xst k))"
    "bf_to_d Z2i (xst (k + 1)) = bf_to_d Z2i (squares (xst k))"
    by (simp_all add: xst bf_to_d_x_step)
  show "xst (k + 1) = mandelbrot_step Zr Zi Cr Ci Tmp1 Tmp2 (bf_sqr Z2i Zi (bf_sqr Z2r Zr (xst k))) \<and>
           orbit_re_out ob' k = bf_to_d Zr (xst k) \<and> orbit_im_out ob' k = bf_to_d Zi (xst k) \<and>
           orbit_re_out ob' (k + 1) = bf_to_d Zr (xst (k + 1)) \<and>
           orbit_im_out ob' (k + 1) = bf_to_d Zi (xst (k + 1)) \<and>
           orbit_z2_im_out zb' (k + 1) = fmul (fmul 2 (orbit_re_out ob' k)) (orbit_im_out ob' k) \<and>
           orbit_z2_re_out zb' (k + 1) =
             fsub (bf_to_d Z2r (bf_sqr Z2i Zi (bf_sqr Z2r Zr (xst k))))
                  (bf_to_d Z2i (bf_sqr Z2i Zi (bf_sqr Z2r Zr (xst k))))"
    unfolding sq z2 [symmetric]
    using suc [unfolded sq] prev rec by (simp add: ob' zb' xst)
qed

theorem compute_reference_orbit_extended_z2_witness:
  "(let R = compute_reference_orbit_extended ''0'' ''0'' 3 2 garbage_bufs garbage_z2 zero_state
    in fst R = 3 \<and>
       map (orbit_z2_im_out (fst (snd (snd R)))) [1, 2, 3] = [0, 0, 0] \<and>
       map (orbit_z2_re_out (fst (snd (snd R)))) [1, 2, 3] = [0, 0, 0])"
proof -
  define R where
    "R = compute_reference_orbit_extended ''0'' ''0'' 3 2 garbage_bufs garbage_z2 zero_state"
  define xst where "xst = x_state ''0'' ''0'' 2 zero_state"
  have o: "origin_signs (xst k)" for k
    unfolding xst_def by (rule x_state_origin)
  have zr: "bf_to_d Zr (xst k) = 0" and zi: "bf_to_d Zi (xst k) = 0" for k
    using origin_signs_to_d [OF o [of k]] by simp_all
  have sq: "bf_to_d Z2r (bf_sqr Z2i Zi (bf_sqr Z2r Zr (xst k))) = 0"
    "bf_to_d Z2i (bf_sqr Z2i Zi (bf_sqr Z2r Zr (xst k))) = 0" for k
    using origin_signs_squares(2,3) [OF o [of k]] by (simp_all add: squares_def bf_to_d_def)
  have never: "\<not> orbit_escaped ((x_step ^^ Suc j)
      (set_nlimbs Z2i 2 (set_nlimbs Z2r 2 (setup_locals ''0'' ''0'' 2 zero_state))))" for j
    using origin_signs_not_orbit_escaped [OF o [of "Suc j"]] by (simp add: xst_def x_state_def)
  have ret: "fst R = 3"
    unfolding R_def compute_reference_orbit_extended_def Let_def
    using never by (rule orbit_ext_loop_never)
  note th = compute_reference_orbit_extended_z2
    [where cr_str = "''0''" and ci_str = "''0''" and max_iter = 3 and n = 2
       and ob = garbage_bufs and zb = garbage_z2 and s = zero_state,
     folded R_def xst_def, THEN spec, THEN mp]
  have k: "int 0 < fst R" "int 1 < fst R" "int 2 < fst R"
    by (simp_all add: ret)
  have z: "fmul (fmul 2 0) 0 = 0" "fsub 0 0 = 0"
    by (simp_all add: fmul_def fsub_def)
  have e: "(0::nat) + 1 = 1" "(1::nat) + 1 = 2" "(2::nat) + 1 = 3"
    by simp_all
  have im: "orbit_z2_im_out (fst (snd (snd R))) (j + 1) = 0"
    and re: "orbit_z2_re_out (fst (snd (snd R))) (j + 1) = 0" if "int j < fst R" for j
    using th [OF that] by (simp_all only: zr zi sq z)
  note im [OF k(1), unfolded e] im [OF k(2), unfolded e] im [OF k(3), unfolded e]
    re [OF k(1), unfolded e] re [OF k(2), unfolded e] re [OF k(3), unfolded e]
  then show ?thesis
    unfolding Let_def R_def [symmetric] using ret by simp
qed

section \<open>Ripple-carry addition\<close>

lemma limbs_from_sum:
  "limbs_from f i k = (\<Sum>j<k. unat (f (i + j)) * 2 ^ (32 * j))"
proof (induction k arbitrary: i)
  case 0
  show ?case by simp
next
  case (Suc k)
  have "(\<Sum>j<Suc k. unat (f (i + j)) * 2 ^ (32 * j)) =
        unat (f i) + (\<Sum>j<k. unat (f (i + Suc j)) * 2 ^ (32 * Suc j))"
    by (subst sum.lessThan_Suc_shift) simp
  also have "(\<Sum>j<k. unat (f (i + Suc j)) * 2 ^ (32 * Suc j)) =
        2 ^ 32 * (\<Sum>j<k. unat (f (Suc i + j)) * 2 ^ (32 * j))"
    by (simp add: sum_distrib_left power_add mult.assoc mult.left_commute)
  finally show ?case
    by (simp add: Suc.IH)
qed

lemma mag_limbs_from: "mag s p n = limbs_from (limb s p) 0 n"
  by (simp add: mag_def limbs_from_sum)

lemma limbs_from_cong:
  "(\<And>j. i \<le> j \<Longrightarrow> j < i + k \<Longrightarrow> f j = g j) \<Longrightarrow> limbs_from f i k = limbs_from g i k"
  by (induction k arbitrary: i) simp_all

lemma limbs_from_bound: "limbs_from f i k < 2 ^ (32 * k)"
proof (induction k arbitrary: i)
  case 0
  show ?case by simp
next
  case (Suc k)
  have "unat (f i) < 2 ^ 32"
    using unsigned_less [of "f i"] by simp
  moreover have "limbs_from f (Suc i) k + 1 \<le> 2 ^ (32 * k)"
    using Suc.IH [of "Suc i"] by simp
  then have "2 ^ 32 * (limbs_from f (Suc i) k + 1) \<le> 2 ^ 32 * 2 ^ (32 * k)"
    by (rule mult_le_mono2)
  ultimately show ?case
    by (simp add: power_add)
qed

lemma mod_split:
  fixes x y K M :: nat
  assumes "x < K"
  shows "(x + K * y) mod (K * M) = x + K * (y mod M)"
proof -
  have "(x + K * y) div K = y" and "(x + K * y) mod K = x"
    using assms by simp_all
  then show ?thesis
    by (simp add: mod_mult2_eq)
qed

lemma add_mag_loop_below:
  "k < i \<Longrightarrow> limb (add_mag_loop r a b n i c s) q k = limb s q k"
proof (induction r a b n i c s rule: add_mag_loop.induct)
  case (1 r a b n i carry s)
  then show ?case
    by (subst add_mag_loop.simps) (simp add: Let_def)
qed

lemma add_mag_loop_value:
  assumes "unat c \<le> 1" and "i \<le> n"
  shows "limbs_from (limb (add_mag_loop r a b n i c s) r) i (n - i) =
         (limbs_from (limb s a) i (n - i) + limbs_from (limb s b) i (n - i) + unat c)
           mod 2 ^ (32 * (n - i))"
  using assms
proof (induction "n - i" arbitrary: i c s)
  case 0
  then have "n - i = 0" by simp
  with "0.prems" show ?case
    by simp
next
  case (Suc d)
  then have lt: "i < n" and d: "d = n - Suc i" and ni: "n - i = Suc d"
    by linarith+
  define ai where "ai = unat (limb s a i)"
  define bi where "bi = unat (limb s b i)"
  define sum :: dlimb_t where "sum = ucast (limb s a i) + ucast (limb s b i) + c"
  define s1 where "s1 = set_limb r i (ucast sum) s"
  define s' where "s' = add_mag_loop r a b n (Suc i) (drop_bit 32 sum) s1"
  have unfold: "add_mag_loop r a b n i c s = s'"
    using lt by (subst add_mag_loop.simps) (simp add: Let_def sum_def s1_def s'_def)
  have ai: "ai < 2 ^ 32" and bi: "bi < 2 ^ 32"
    using unsigned_less [of "limb s a i"] unsigned_less [of "limb s b i"]
    by (simp_all add: ai_def bi_def)
  have ua: "unat (ucast (limb s a i) :: dlimb_t) = ai"
    and ub: "unat (ucast (limb s b i) :: dlimb_t) = bi"
    using ai bi by (simp_all add: unsigned_ucast_eq take_bit_eq_mod ai_def bi_def)
  have small: "ai + bi + unat c < 2 ^ 64"
    using ai bi Suc.prems(1) by simp
  have usum: "unat sum = ai + bi + unat c"
    using small by (simp add: sum_def unat_word_ariths ua ub)
  have lo: "unat (ucast sum :: limb_t) = (ai + bi + unat c) mod 2 ^ 32"
    by (simp add: unsigned_ucast_eq take_bit_eq_mod usum)
  have hi: "unat (drop_bit 32 sum) = (ai + bi + unat c) div 2 ^ 32"
    by (simp add: drop_bit_eq_div unat_div_distrib usum)
  have c1: "unat (drop_bit 32 sum) \<le> 1"
    using ai bi Suc.prems(1) by (simp add: hi)
  have top: "limb s' r i = ucast sum"
    unfolding s'_def using add_mag_loop_below [of i "Suc i" r a b n "drop_bit 32 sum" s1 r]
    by (simp add: s1_def)
  have fa: "limbs_from (limb s1 a) (Suc i) d = limbs_from (limb s a) (Suc i) d"
    and fb: "limbs_from (limb s1 b) (Suc i) d = limbs_from (limb s b) (Suc i) d"
    by (rule limbs_from_cong, simp add: s1_def)+
  have ih0: "limbs_from (limb s' r) (Suc i) (n - Suc i) =
      (limbs_from (limb s1 a) (Suc i) (n - Suc i) + limbs_from (limb s1 b) (Suc i) (n - Suc i) +
       unat (drop_bit 32 sum)) mod 2 ^ (32 * (n - Suc i))"
    using Suc.hyps(1) [OF d c1, of s1] lt by (simp add: s'_def)
  note ih = ih0 [folded d, unfolded fa fb]
  define A where "A = limbs_from (limb s a) (Suc i) d"
  define B where "B = limbs_from (limb s b) (Suc i) d"
  have "limbs_from (limb s' r) i (Suc d) =
      (ai + bi + unat c) mod 2 ^ 32 + 2 ^ 32 * ((A + B + (ai + bi + unat c) div 2 ^ 32) mod 2 ^ (32 * d))"
    by (simp add: top lo ih hi A_def B_def)
  also have "\<dots> = ((ai + bi + unat c) mod 2 ^ 32 +
      2 ^ 32 * (A + B + (ai + bi + unat c) div 2 ^ 32)) mod (2 ^ 32 * 2 ^ (32 * d))"
    by (rule mod_split [symmetric]) simp
  also have "(ai + bi + unat c) mod 2 ^ 32 + 2 ^ 32 * (A + B + (ai + bi + unat c) div 2 ^ 32) =
      (ai + 2 ^ 32 * A) + (bi + 2 ^ 32 * B) + unat c"
    by (simp add: algebra_simps)
  finally show ?case
    unfolding unfold ni by (simp add: A_def B_def ai_def bi_def power_add)
qed

lemma add_mag_loop_nlimbs: "nlimbs (bf (add_mag_loop r a b n i c s) q) = nlimbs (bf s q)"
proof (induction r a b n i c s rule: add_mag_loop.induct)
  case (1 r a b n i carry s)
  then show ?case
    by (subst add_mag_loop.simps) (simp add: Let_def)
qed

lemma add_mag_loop_sign: "sign (bf (add_mag_loop r a b n i c s) q) = sign (bf s q)"
proof (induction r a b n i c s rule: add_mag_loop.induct)
  case (1 r a b n i carry s)
  then show ?case
    by (subst add_mag_loop.simps) (simp add: Let_def)
qed

lemma mag_cong: "(\<And>i. i < n \<Longrightarrow> limb s p i = limb t q i) \<Longrightarrow> mag s p n = mag t q n"
  by (simp add: mag_def)

lemma mag_eq_0_iff: "mag s p n = 0 \<longleftrightarrow> (\<forall>i<n. limb s p i = 0)"
  by (auto simp: mag_def unat_eq_0)

lemma mag_two: "mag s p 2 = unat (limb s p 0) + 2 ^ 32 * unat (limb s p 1)"
proof -
  have two: "(2::nat) = Suc (Suc 0)"
    by simp
  show ?thesis
    by (subst two) (simp add: mag_def)
qed

lemma bf_add_mag_value:
  assumes "nlimbs (bf s a) = n"
  shows "mag (bf_add_mag r a b s) r n = (mag s a n + mag s b n) mod 2 ^ (32 * n)"
  using add_mag_loop_value [of 0 0 n r a b s] assms
  by (simp add: bf_add_mag_def mag_limbs_from)

text \<open>
  C8.  For operands \<open>a\<close> and \<open>b\<close> of the same nonzero sign and of \<open>n\<close> limbs each,
  \<^verbatim>\<open>bf_add\<close> stores in \<open>r\<close> the magnitude \<open>(|a| + |b|) mod 2 ^ (32 * n)\<close>: the low
  \<open>32 * n\<close> bits of the sum.  The result has \<open>n\<close> limbs, so a carry out of the top limb is
  dropped; the function has no error result.  The sign of the result is the sign of the
  operands, or \<open>0\<close> when every limb of the sum is \<open>0\<close>.  The output \<open>r\<close> may be one of the
  operands.
\<close>

theorem bf_add_same_sign_magnitude:
  assumes "sign (bf s a) \<noteq> 0" and "sign (bf s b) \<noteq> 0" and "sign (bf s a) = sign (bf s b)"
    and "nlimbs (bf s a) = n" and "nlimbs (bf s b) = n"
  shows "mag (bf_add r a b s) r n = (mag s a n + mag s b n) mod 2 ^ (32 * n) \<and>
         nlimbs (bf (bf_add r a b s) r) = n \<and>
         sign (bf (bf_add r a b s) r) = (if mag (bf_add r a b s) r n = 0 then 0 else sign (bf s a))"
proof -
  define s1 where "s1 = set_nlimbs r n s"
  define s2 where "s2 = bf_add_mag r a b s1"
  define s3 where "s3 = set_sign r (sign (bf s2 a)) s2"
  define s4 where "s4 = (if bf_is_zero r s3 then set_sign r 0 s3 else s3)"
  have n1: "nlimbs (bf s1 a) = n"
    using assms(4) by (simp add: s1_def)
  have sg2: "sign (bf s2 q) = sign (bf s q)" for q
    by (simp add: s2_def s1_def bf_add_mag_def add_mag_loop_sign)
  have nl2: "nlimbs (bf s2 r) = n"
    by (simp add: s2_def s1_def bf_add_mag_def add_mag_loop_nlimbs)
  have run: "bf_add r a b s = s4"
    using assms by (simp add: bf_add_def Let_def s1_def s2_def s3_def s4_def)
  have "mag s2 r n = (mag s1 a n + mag s1 b n) mod 2 ^ (32 * n)"
    unfolding s2_def using n1 by (rule bf_add_mag_value)
  moreover have "mag s1 a n = mag s a n" "mag s1 b n = mag s b n"
    by (rule mag_cong, simp add: s1_def)+
  moreover have m4: "mag s4 r n = mag s2 r n"
    by (rule mag_cong) (simp add: s4_def s3_def)
  ultimately have val: "mag s4 r n = (mag s a n + mag s b n) mod 2 ^ (32 * n)"
    by simp
  have nl4: "nlimbs (bf s4 r) = n"
    using nl2 by (simp add: s4_def s3_def)
  have "bf_is_zero r s3 \<longleftrightarrow> mag s3 r n = 0"
    using nl2 by (simp add: bf_is_zero_iff mag_eq_0_iff s3_def)
  moreover have "mag s3 r n = mag s4 r n"
    by (rule mag_cong) (simp add: s4_def)
  ultimately have "sign (bf s4 r) = (if mag s4 r n = 0 then 0 else sign (bf s a))"
    by (simp add: s4_def s3_def sg2)
  with val nl4 show ?thesis
    by (simp add: run)
qed

lemma bf_store_obj [simp]:
  "sign (bf (store_obj p xs sg s) q) = (if q = p then sg else sign (bf s q))"
  "nlimbs (bf (store_obj p xs sg s) q) = (if q = p then length xs else nlimbs (bf s q))"
  "limb (store_obj p xs sg s) q i =
     (if q = p then (if i < length xs then xs ! i else 0) else limb s q i)"
  by (simp_all add: store_obj_def limb_def)

theorem bf_add_same_sign_magnitude_witness:
  "(let s = store_obj (Obj 0) [0xFFFFFFFF, 0x80000001] 1
              (store_obj (Obj 1) [5, 0x80000000] 1 zero_state);
        t = bf_add (Obj 2) (Obj 0) (Obj 1) s
    in sign (bf s (Obj 0)) = 1 \<and> sign (bf s (Obj 1)) = 1 \<and>
       nlimbs (bf s (Obj 0)) = 2 \<and> nlimbs (bf s (Obj 1)) = 2 \<and>
       mag t (Obj 2) 2 = (mag s (Obj 0) 2 + mag s (Obj 1) 2) mod 2 ^ 64 \<and>
       mag s (Obj 0) 2 + mag s (Obj 1) 2 = 2 ^ 64 + 0x200000004 \<and>
       map (limb t (Obj 2)) [0, 1] = [4, 2] \<and>
       nlimbs (bf t (Obj 2)) = 2 \<and> sign (bf t (Obj 2)) = 1)"
proof -
  define s where "s = store_obj (Obj 0) [0xFFFFFFFF, 0x80000001] 1
              (store_obj (Obj 1) [5, 0x80000000] 1 zero_state)"
  define t where "t = bf_add (Obj 2) (Obj 0) (Obj 1) s"
  have h: "sign (bf s (Obj 0)) \<noteq> 0" "sign (bf s (Obj 1)) \<noteq> 0"
    "sign (bf s (Obj 0)) = sign (bf s (Obj 1))"
    "nlimbs (bf s (Obj 0)) = 2" "nlimbs (bf s (Obj 1)) = 2"
    by (simp_all add: s_def)
  have pre: "sign (bf s (Obj 0)) = 1" "sign (bf s (Obj 1)) = 1"
    by (simp_all add: s_def)
  have sum: "mag s (Obj 0) 2 + mag s (Obj 1) 2 = 2 ^ 64 + 0x200000004"
    by (simp add: mag_two s_def)
  have limbs: "map (limb t (Obj 2)) [0, 1] = [4, 2]"
    unfolding t_def s_def by code_simp
  have sg: "sign (bf t (Obj 2)) = 1"
    unfolding t_def s_def by code_simp
  from bf_add_same_sign_magnitude [OF h, of "Obj 2"]
  have "mag t (Obj 2) 2 = (mag s (Obj 0) 2 + mag s (Obj 1) 2) mod 2 ^ 64"
    and "nlimbs (bf t (Obj 2)) = 2"
    by (simp_all add: t_def)
  with h pre sum limbs sg show ?thesis
    unfolding Let_def s_def [symmetric] t_def [symmetric] by simp
qed

section \<open>The schoolbook product\<close>

lemma limbs_from_upd:
  "i \<le> p \<Longrightarrow> p < i + k \<Longrightarrow>
   limbs_from (f(p := w)) i k + unat (f p) * 2 ^ (32 * (p - i)) =
   limbs_from f i k + unat w * 2 ^ (32 * (p - i))"
proof (induction k arbitrary: i)
  case 0
  then show ?case by simp
next
  case (Suc k)
  define g where "g = f(p := w)"
  have gp: "g p = w" and go: "\<And>x. x \<noteq> p \<Longrightarrow> g x = f x"
    by (simp_all add: g_def)
  show ?case
  proof (cases "p = i")
    case True
    have "limbs_from g (Suc i) k = limbs_from f (Suc i) k"
      by (rule limbs_from_cong) (simp add: True go)
    then show ?thesis
      unfolding g_def [symmetric] using gp by (simp add: True)
  next
    case False
    with Suc.prems have lt: "Suc i \<le> p" "p < Suc i + k"
      by simp_all
    have "p - i = Suc (p - Suc i)"
      using lt by simp
    then have e: "(2::nat) ^ (32 * (p - i)) = 2 ^ 32 * 2 ^ (32 * (p - Suc i))"
      by (simp add: power_add)
    have "limbs_from g (Suc i) k + unat (f p) * 2 ^ (32 * (p - Suc i)) =
          limbs_from f (Suc i) k + unat w * 2 ^ (32 * (p - Suc i))"
      unfolding g_def by (rule Suc.IH [OF lt])
    then have "2 ^ 32 * (limbs_from g (Suc i) k + unat (f p) * 2 ^ (32 * (p - Suc i))) =
          2 ^ 32 * (limbs_from f (Suc i) k + unat w * 2 ^ (32 * (p - Suc i)))"
      by simp
    then show ?thesis
      unfolding g_def [symmetric] e using False go [of i] by (simp add: algebra_simps)
  qed
qed

lemma limb_set_scratch_fun: "limb (set_scratch k v s) = limb s"
  by (simp add: fun_eq_iff)

lemma scratch_set_scratch_upd: "scratch (set_scratch p w s) = (scratch s)(p := w)"
  by (simp add: set_scratch_def)

lemma scratch_value_upd:
  "p < K \<Longrightarrow>
   limbs_from (scratch (set_scratch p w s)) 0 K + unat (scratch s p) * 2 ^ (32 * p) =
   limbs_from (scratch s) 0 K + unat w * 2 ^ (32 * p)"
  using limbs_from_upd [of 0 p K "scratch s" w] by (simp add: scratch_set_scratch_upd)

lemma limb_product_bound:
  fixes x y :: limb_t
  shows "unat x * unat y \<le> 18446744065119617025"
proof -
  have "unat x \<le> 4294967295" "unat y \<le> 4294967295"
    using unsigned_less [of x, where ?'a = nat] unsigned_less [of y, where ?'a = nat] by simp_all
  then have "unat x * unat y \<le> 4294967295 * 4294967295"
    by (rule mult_le_mono)
  then show ?thesis
    by simp
qed

lemma mul_step_word:
  fixes x y z :: limb_t and c sm :: dlimb_t
  assumes "unat c < 2 ^ 32"
  defines "sm \<equiv> ucast z + ucast x * ucast y + c"
  shows "unat sm = unat z + unat x * unat y + unat c"
    and "unat (ucast sm :: limb_t) = (unat z + unat x * unat y + unat c) mod 2 ^ 32"
    and "unat (drop_bit 32 sm) = (unat z + unat x * unat y + unat c) div 2 ^ 32"
    and "unat (drop_bit 32 sm) < 2 ^ 32"
proof -
  have z: "unat z \<le> 4294967295"
    using unsigned_less [of z, where ?'a = nat] by simp
  have ux: "unat (ucast x :: dlimb_t) = unat x" and uy: "unat (ucast y :: dlimb_t) = unat y"
    and uz: "unat (ucast z :: dlimb_t) = unat z"
    using unsigned_less [of x, where ?'a = nat] unsigned_less [of y, where ?'a = nat]
      unsigned_less [of z, where ?'a = nat]
    by (simp_all add: unsigned_ucast_eq take_bit_eq_mod)
  have p: "unat (ucast x * ucast y :: dlimb_t) = unat x * unat y"
    using limb_product_bound [of x y] by (simp add: unat_word_ariths ux uy)
  have small: "unat z + unat x * unat y + unat c < 2 ^ 64"
    using limb_product_bound [of x y] z assms(1) by simp
  show s: "unat sm = unat z + unat x * unat y + unat c"
    using small by (simp add: sm_def unat_word_ariths(1) p uz)
  show "unat (ucast sm :: limb_t) = (unat z + unat x * unat y + unat c) mod 2 ^ 32"
    by (simp add: unsigned_ucast_eq take_bit_eq_mod s)
  show d: "unat (drop_bit 32 sm) = (unat z + unat x * unat y + unat c) div 2 ^ 32"
    by (simp add: drop_bit_eq_div unat_div_distrib s)
  show "unat (drop_bit 32 sm) < 2 ^ 32"
    unfolding d using small by (simp add: less_mult_imp_div_less)
qed

lemma mul_inner_scratch_frame:
  "k < i + j \<or> i + n \<le> k \<Longrightarrow> scratch (snd (mul_inner a b n i j c s)) k = scratch s k"
proof (induction a b n i j c s rule: mul_inner.induct)
  case (1 a b n i j carry s)
  show ?case
  proof (cases "j < n")
    case True
    with 1 show ?thesis
      by (subst mul_inner.simps) (auto simp: Let_def)
  next
    case False
    then show ?thesis
      by (subst mul_inner.simps) simp
  qed
qed

lemma mul_inner_value:
  assumes "j \<le> n" and "i + n \<le> K" and "unat c < 2 ^ 32"
  shows "limbs_from (scratch (snd (mul_inner a b n i j c s))) 0 K +
           unat (fst (mul_inner a b n i j c s)) * 2 ^ (32 * (i + n)) =
         limbs_from (scratch s) 0 K +
           (unat c + unat (limb s a i) * limbs_from (limb s b) j (n - j)) * 2 ^ (32 * (i + j)) \<and>
         unat (fst (mul_inner a b n i j c s)) < 2 ^ 32"
  using assms
proof (induction "n - j" arbitrary: j c s)
  case 0
  then have "\<not> j < n" and "n - j = 0" and "j = n"
    by simp_all
  with "0.prems" show ?case
    by (subst (1 2 3) mul_inner.simps) simp
next
  case (Suc d)
  then have lt: "j < n" and d: "d = n - Suc j" and nj: "n - j = Suc d"
    by linarith+
  define ai where "ai = unat (limb s a i)"
  define bj where "bj = unat (limb s b j)"
  define sc where "sc = unat (scratch s (i + j))"
  define sum :: dlimb_t where
    "sum = ucast (scratch s (i + j)) + ucast (limb s a i) * ucast (limb s b j) + c"
  define s1 where "s1 = set_scratch (i + j) (ucast sum) s"
  define R where "R = mul_inner a b n i (Suc j) (drop_bit 32 sum) s1"
  define T where "T = sc + ai * bj + unat c"
  define E :: nat where "E = 2 ^ (32 * (i + j))"
  define L where "L = limbs_from (limb s b) (Suc j) d"
  have unfold: "mul_inner a b n i j c s = R"
    using lt by (subst mul_inner.simps) (simp add: Let_def sum_def s1_def R_def)
  note w = mul_step_word [OF Suc.prems(3), of "scratch s (i + j)" "limb s a i" "limb s b j",
      folded sum_def ai_def bj_def sc_def, folded T_def]
  have up: "limbs_from (scratch s1) 0 K + sc * E = limbs_from (scratch s) 0 K + T mod 2 ^ 32 * E"
    unfolding s1_def sc_def E_def using scratch_value_upd [of "i + j" K "ucast sum" s] lt Suc.prems(2)
    by (simp add: w(2))
  have ih: "limbs_from (scratch (snd R)) 0 K + unat (fst R) * 2 ^ (32 * (i + n)) =
      limbs_from (scratch s1) 0 K + (T div 2 ^ 32 + ai * L) * (2 ^ 32 * E) \<and>
      unat (fst R) < 2 ^ 32"
    using Suc.hyps(1) [OF d _ Suc.prems(2) w(4), of s1] lt
    by (simp add: R_def s1_def w(3) ai_def L_def d E_def power_add limb_set_scratch_fun)
  have "T mod 2 ^ 32 * E + T div 2 ^ 32 * (2 ^ 32 * E) = (T mod 2 ^ 32 + T div 2 ^ 32 * 2 ^ 32) * E"
    by (simp only: add_mult_distrib mult.assoc)
  also have "\<dots> = T * E"
    by simp
  finally have tm: "T mod 2 ^ 32 * E + T div 2 ^ 32 * (2 ^ 32 * E) = T * E" .
  have "limbs_from (scratch (snd R)) 0 K + unat (fst R) * 2 ^ (32 * (i + n)) + sc * E =
      limbs_from (scratch s1) 0 K + sc * E + (T div 2 ^ 32 + ai * L) * (2 ^ 32 * E)"
    using ih by simp
  also have "\<dots> = limbs_from (scratch s) 0 K +
      (T mod 2 ^ 32 * E + T div 2 ^ 32 * (2 ^ 32 * E)) + ai * L * (2 ^ 32 * E)"
    unfolding up by (simp add: add_mult_distrib)
  also have "\<dots> = limbs_from (scratch s) 0 K + T * E + ai * L * (2 ^ 32 * E)"
    unfolding tm ..
  also have "\<dots> = limbs_from (scratch s) 0 K + (unat c + ai * (bj + 2 ^ 32 * L)) * E + sc * E"
    by (simp add: T_def algebra_simps)
  finally have "limbs_from (scratch (snd R)) 0 K + unat (fst R) * 2 ^ (32 * (i + n)) =
      limbs_from (scratch s) 0 K + (unat c + ai * (bj + 2 ^ 32 * L)) * E"
    by simp
  with ih show ?case
    unfolding unfold nj by (simp add: ai_def bj_def L_def E_def)
qed

lemma limb_cong_bf: "bf s = bf t \<Longrightarrow> limb s = limb t"
  by (simp add: limb_def fun_eq_iff)

lemma limbs_from_zero:
  "(\<And>j. i \<le> j \<Longrightarrow> j < i + k \<Longrightarrow> f j = 0) \<Longrightarrow> limbs_from f i k = 0"
  by (induction k arbitrary: i) simp_all

lemma limbs_from_split:
  "limbs_from f i (m + k) = limbs_from f i m + 2 ^ (32 * m) * limbs_from f (i + m) k"
  by (induction m arbitrary: i) (simp_all add: power_add algebra_simps)

lemma limbs_from_shift: "limbs_from (\<lambda>j. f (m + j)) i k = limbs_from f (m + i) k"
  by (induction k arbitrary: i) simp_all

lemma limbs_from_high:
  "limbs_from f 0 (m + k) div 2 ^ (32 * m) = limbs_from f m k"
  using limbs_from_bound [of f 0 m] by (simp add: limbs_from_split)

lemma mul_outer_value:
  assumes "i \<le> n" and "\<And>k. i + n \<le> k \<Longrightarrow> k < 2 * n \<Longrightarrow> scratch s k = 0"
  shows "limbs_from (scratch (mul_outer a b n i s)) 0 (2 * n) =
         limbs_from (scratch s) 0 (2 * n) +
           limbs_from (limb s a) i (n - i) * limbs_from (limb s b) 0 n * 2 ^ (32 * i)"
  using assms
proof (induction "n - i" arbitrary: i s)
  case 0
  then have "\<not> i < n" and "n - i = 0"
    by simp_all
  then show ?case
    by (subst mul_outer.simps) simp
next
  case (Suc d)
  then have lt: "i < n" and d: "d = n - Suc i" and ni: "n - i = Suc d"
    by linarith+
  obtain c s1 where m: "mul_inner a b n i 0 0 s = (c, s1)"
    by fastforce
  define s2 where "s2 = set_scratch (i + n) (scratch s1 (i + n) + ucast c) s1"
  define B where "B = limbs_from (limb s b) 0 n"
  define ai where "ai = unat (limb s a i)"
  define A' where "A' = limbs_from (limb s a) (Suc i) d"
  define E :: nat where "E = 2 ^ (32 * i)"
  have unfold: "mul_outer a b n i s = mul_outer a b n (Suc i) s2"
    using lt m by (subst mul_outer.simps) (simp add: s2_def)
  have bf1: "bf s1 = bf s"
    using mul_inner_bf [of a b n i 0 0 s] m by simp
  have l2: "limb s2 = limb s"
    unfolding s2_def limb_set_scratch_fun by (rule limb_cong_bf [OF bf1])
  have fr: "scratch s1 k = scratch s k" if "i + n \<le> k" for k
    using mul_inner_scratch_frame [of k i 0 n a b 0 s] that m by simp
  have inner: "limbs_from (scratch s1) 0 (2 * n) + unat c * 2 ^ (32 * (i + n)) =
      limbs_from (scratch s) 0 (2 * n) + ai * B * E" and c: "unat c < 2 ^ 32"
    using mul_inner_value [of 0 n i "2 * n" 0 a b s] lt m
    by (simp_all add: ai_def B_def E_def)
  have z: "scratch s1 (i + n) = 0"
    using fr [of "i + n"] Suc.prems(2) [of "i + n"] lt by simp
  have uc: "unat (ucast c :: limb_t) = unat c"
    using c by (simp add: unsigned_ucast_eq take_bit_eq_mod)
  have v2: "limbs_from (scratch s2) 0 (2 * n) = limbs_from (scratch s) 0 (2 * n) + ai * B * E"
    using scratch_value_upd [of "i + n" "2 * n" "ucast c" s1] lt inner
    by (simp add: s2_def z uc)
  have z2: "scratch s2 k = 0" if "Suc i + n \<le> k" "k < 2 * n" for k
    using that fr [of k] Suc.prems(2) [of k] by (simp add: s2_def)
  have "limbs_from (scratch (mul_outer a b n (Suc i) s2)) 0 (2 * n) =
      limbs_from (scratch s2) 0 (2 * n) +
        limbs_from (limb s2 a) (Suc i) (n - Suc i) * limbs_from (limb s2 b) 0 n * 2 ^ (32 * Suc i)"
    using lt z2 by (intro Suc.hyps(1) [OF d]) simp_all
  also have "\<dots> = limbs_from (scratch s) 0 (2 * n) + ai * B * E + A' * B * (2 ^ 32 * E)"
    unfolding l2 v2 by (simp add: A'_def B_def E_def d power_add)
  also have "\<dots> = limbs_from (scratch s) 0 (2 * n) + (ai + 2 ^ 32 * A') * B * E"
    by (simp add: algebra_simps)
  finally show ?case
    unfolding unfold ni by (simp add: ai_def A'_def B_def E_def)
qed

lemma extract_loop_scratch: "scratch (extract_loop r n i s) = scratch s"
proof (induction r n i s rule: extract_loop.induct)
  case (1 r n i s)
  then show ?case
    by (subst extract_loop.simps) (simp add: Let_def)
qed

lemma extract_loop_limb:
  "limb (extract_loop r n i s) q j =
     (if q = r \<and> i \<le> j \<and> j < n
      then ucast (push_bit 4 (ucast (scratch s (n + j)) :: dlimb_t) OR
                  ucast (drop_bit 28 (scratch s (n + j - 1))))
      else limb s q j)"
proof (induction r n i s rule: extract_loop.induct)
  case (1 r n i s)
  show ?case
  proof (cases "i < n")
    case True
    with 1 show ?thesis
      by (subst extract_loop.simps) (auto simp: Let_def)
  next
    case False
    then show ?thesis
      by (subst extract_loop.simps) auto
  qed
qed

lemma extract_word:
  fixes x y :: limb_t
  shows "unat (ucast (push_bit 4 (ucast x :: dlimb_t) OR ucast (drop_bit 28 y)) :: limb_t) =
         (16 * unat x + unat y div 2 ^ 28) mod 2 ^ 32"
proof -
  define u :: dlimb_t where "u = push_bit 4 (ucast x)"
  define v :: dlimb_t where "v = ucast (drop_bit 28 y)"
  have x: "unat x < 2 ^ 32" and y: "unat y < 2 ^ 32"
    using unsigned_less [of x, where ?'a = nat] unsigned_less [of y, where ?'a = nat] by simp_all
  have ux: "unat (ucast x :: dlimb_t) = unat x"
    using x by (simp add: unsigned_ucast_eq take_bit_eq_mod)
  have uu: "unat u = 16 * unat x"
    using x by (simp add: u_def push_bit_eq_mult unat_word_ariths(2) ux)
  have dy: "unat (drop_bit 28 y) = unat y div 2 ^ 28"
    by (simp add: drop_bit_eq_div unat_div_distrib)
  have uv: "unat v = unat y div 2 ^ 28"
    using y by (simp add: v_def unsigned_ucast_eq take_bit_eq_mod dy)
  have "u AND v = 0"
    by (rule bit_word_eqI) (auto simp: u_def v_def bit_simps dest: bit_imp_le_length)
  then have "u OR v = u + v"
    by (simp add: disjunctive_add_eq_or)
  moreover have "unat (u + v) = 16 * unat x + unat y div 2 ^ 28"
    using x y by (simp add: unat_word_ariths(1) uu uv)
  ultimately show ?thesis
    unfolding u_def [symmetric] v_def [symmetric]
    by (simp add: unsigned_ucast_eq take_bit_eq_mod)
qed

lemma window_value:
  assumes "\<And>j. i \<le> j \<Longrightarrow> j < i + k \<Longrightarrow>
             unat (h j) = (16 * unat (f (Suc j)) + unat (f j) div 2 ^ 28) mod 2 ^ 32"
  shows "limbs_from h i k = limbs_from f i (Suc k) div 2 ^ 28 mod 2 ^ (32 * k)"
  using assms
proof (induction k arbitrary: i)
  case 0
  show ?case by simp
next
  case (Suc k)
  define lo where "lo = unat (f i) div 2 ^ 28"
  define f1 where "f1 = unat (f (Suc i))"
  define Y where "Y = limbs_from f (Suc (Suc i)) k"
  define F1 where "F1 = limbs_from f (Suc i) (Suc k)"
  have F1: "F1 = f1 + 2 ^ 32 * Y"
    by (simp add: F1_def f1_def Y_def)
  have lo: "lo < 16"
    using unsigned_less [of "f i", where ?'a = nat] by (simp add: lo_def less_mult_imp_div_less)
  have ih: "limbs_from h (Suc i) k = F1 div 2 ^ 28 mod 2 ^ (32 * k)"
    unfolding F1_def using Suc.prems by (intro Suc.IH) simp_all
  have hi: "unat (h i) = (16 * f1 + lo) mod 2 ^ 32"
    using Suc.prems [of i] by (simp add: f1_def lo_def)
  have m28: "F1 mod 2 ^ 28 = f1 mod 2 ^ 28"
  proof -
    have "F1 = f1 + 2 ^ 28 * (16 * Y)"
      by (simp add: F1)
    then show ?thesis
      by (simp only: mod_mult_self2)
  qed
  have "16 * f1 + lo = (lo + 16 * (f1 mod 2 ^ 28)) + 2 ^ 32 * (f1 div 2 ^ 28)"
  proof -
    have "f1 = f1 div 2 ^ 28 * 2 ^ 28 + f1 mod 2 ^ 28"
      by simp
    then have "16 * f1 = 16 * (f1 div 2 ^ 28 * 2 ^ 28) + 16 * (f1 mod 2 ^ 28)"
      by (metis distrib_left)
    then show ?thesis
      by simp
  qed
  moreover have small: "lo + 16 * (f1 mod 2 ^ 28) < 2 ^ 32"
  proof -
    have "f1 mod 2 ^ 28 < 2 ^ 28"
      by simp
    then show ?thesis
      using lo by simp
  qed
  ultimately have hi': "unat (h i) = lo + 16 * (f1 mod 2 ^ 28)"
    unfolding hi by (simp only: mod_mult_self2 mod_less)
  have "limbs_from f i (Suc (Suc k)) = unat (f i) + 2 ^ 28 * (16 * F1)"
    by (simp add: F1_def)
  then have "limbs_from f i (Suc (Suc k)) div 2 ^ 28 = lo + 16 * F1"
    by (simp only: div_mult_self2 lo_def) simp
  also have "\<dots> = (lo + 16 * (f1 mod 2 ^ 28)) + 2 ^ 32 * (F1 div 2 ^ 28)"
  proof -
    have "F1 = F1 div 2 ^ 28 * 2 ^ 28 + F1 mod 2 ^ 28"
      by simp
    then have "16 * F1 = 16 * (F1 div 2 ^ 28 * 2 ^ 28) + 16 * (F1 mod 2 ^ 28)"
      by (metis distrib_left)
    then have e: "16 * F1 = 16 * (F1 mod 2 ^ 28) + 2 ^ 32 * (F1 div 2 ^ 28)"
      by simp
    show ?thesis
      unfolding e m28 by simp
  qed
  finally have "limbs_from f i (Suc (Suc k)) div 2 ^ 28 mod (2 ^ 32 * 2 ^ (32 * k)) =
      (lo + 16 * (f1 mod 2 ^ 28)) + 2 ^ 32 * (F1 div 2 ^ 28 mod 2 ^ (32 * k))"
    using mod_split [OF small, of "F1 div 2 ^ 28" "2 ^ (32 * k)"] by simp
  then show ?case
    by (simp add: hi' ih power_add)
qed

lemma mul_outer_product:
  "limbs_from (scratch (mul_outer a b n 0 (memset_scratch (2 * n + 2) s))) 0 (2 * n) =
   mag s a n * mag s b n"
proof -
  define s1 where "s1 = memset_scratch (2 * n + 2) s"
  have l1: "limb s1 = limb s"
    by (rule limb_cong_bf) (simp add: s1_def)
  have z: "limbs_from (scratch s1) 0 (2 * n) = 0"
    by (rule limbs_from_zero) (simp add: s1_def)
  have "limbs_from (scratch (mul_outer a b n 0 s1)) 0 (2 * n) =
      limbs_from (scratch s1) 0 (2 * n) +
        limbs_from (limb s1 a) 0 (n - 0) * limbs_from (limb s1 b) 0 n * 2 ^ (32 * 0)"
    by (rule mul_outer_value) (simp_all add: s1_def)
  then show ?thesis
    unfolding s1_def [symmetric] by (simp add: z l1 mag_limbs_from)
qed

lemma extract_loop_value:
  "limbs_from (limb (extract_loop r n 0 s) r) 0 n =
   limbs_from (scratch s) 0 (2 * n) div 2 ^ (32 * n - 4) mod 2 ^ (32 * n)"
proof (cases n)
  case 0
  then show ?thesis by simp
next
  case (Suc m)
  define f where "f = (\<lambda>j. scratch s (m + j))"
  define P where "P = limbs_from (scratch s) 0 (2 * n)"
  have h: "unat (limb (extract_loop r n 0 s) r j) =
      (16 * unat (f (Suc j)) + unat (f j) div 2 ^ 28) mod 2 ^ 32" if "j < 0 + n" for j
    using that by (simp add: extract_loop_limb extract_word f_def Suc)
  have "limbs_from (limb (extract_loop r n 0 s) r) 0 n =
      limbs_from f 0 (Suc n) div 2 ^ 28 mod 2 ^ (32 * n)"
    by (rule window_value) (rule h)
  also have "limbs_from f 0 (Suc n) = limbs_from (scratch s) m (Suc n)"
    unfolding f_def limbs_from_shift by (simp only: add_0_right)
  also have "\<dots> = P div 2 ^ (32 * m)"
  proof -
    have e: "2 * n = m + Suc n"
      by (simp add: Suc)
    show ?thesis
      unfolding P_def e by (rule limbs_from_high [symmetric])
  qed
  also have "P div 2 ^ (32 * m) div 2 ^ 28 = P div 2 ^ (32 * n - 4)"
  proof -
    have "32 * n - 4 = 32 * m + 28"
      by (simp add: Suc)
    then show ?thesis
      by (simp add: div_mult2_eq power_add)
  qed
  finally show ?thesis
    by (simp add: P_def)
qed

lemma bf_mul_schoolbook_value:
  fixes r a b :: ref and s :: state
  defines "n \<equiv> nlimbs (bf s a)" and "t \<equiv> bf_mul_schoolbook r a b s"
  shows "nlimbs (bf t r) = n"
    and "mag t r n = fixed_point_product n (mag s a n) (mag s b n)"
    and "sign (bf t r) =
           (if mag t r n = 0 then 0
            else if a \<noteq> r \<and> sign (bf s a) = 0 \<or> b \<noteq> r \<and> sign (bf s b) = 0 then 0
            else if sign (bf s a) = sign (bf s b) then 1 else - 1)"
proof -
  define s2 where "s2 = mul_outer a b n 0 (memset_scratch (2 * n + 2) s)"
  define s3 where "s3 = extract_loop r n 0 s2"
  define s4 where "s4 = set_nlimbs r n s3"
  define sg0 :: int where "sg0 = (if sign (bf s4 a) = sign (bf s4 b) then 1 else - 1)"
  define s5 where "s5 = set_sign r sg0 s4"
  define s6 where "s6 = (if sign (bf s5 a) = 0 \<or> sign (bf s5 b) = 0 then set_sign r 0 s5 else s5)"
  have sg3: "sign (bf s3 q) = sign (bf s q)" for q
    by (simp add: s3_def s2_def extract_loop_sign mul_outer_bf)
  have sg4: "sign (bf s4 q) = sign (bf s q)" for q
    by (simp add: s4_def sg3)
  have sg0_def': "sg0 = (if sign (bf s a) = sign (bf s b) then 1 else - 1)"
    by (simp add: sg0_def sg4)
  have t: "t = (if bf_is_zero r s6 then set_sign r 0 s6 else s6)"
    unfolding t_def bf_mul_schoolbook_def Let_def s6_def s5_def sg0_def s4_def s3_def s2_def n_def ..
  have lt: "limb t r j = limb s3 r j" for j
    by (simp add: t s6_def s5_def s4_def)
  show nl: "nlimbs (bf t r) = n"
    by (simp add: t s6_def s5_def s4_def)
  have nl6: "nlimbs (bf s6 r) = n"
    by (simp add: s6_def s5_def s4_def)
  have "mag t r n = limbs_from (limb s3 r) 0 n"
    unfolding mag_limbs_from by (rule limbs_from_cong) (simp add: lt)
  also have "\<dots> = limbs_from (scratch s2) 0 (2 * n) div 2 ^ (32 * n - 4) mod 2 ^ (32 * n)"
    unfolding s3_def by (rule extract_loop_value)
  also have "limbs_from (scratch s2) 0 (2 * n) = mag s a n * mag s b n"
    unfolding s2_def by (rule mul_outer_product)
  finally show "mag t r n = fixed_point_product n (mag s a n) (mag s b n)"
    by (simp add: fixed_point_product_def)
  have l6: "limb s6 r j = limb t r j" for j
    by (simp add: t)
  have z: "bf_is_zero r s6 \<longleftrightarrow> mag t r n = 0"
    by (simp add: bf_is_zero_iff nl6 mag_eq_0_iff l6)
  have sg0: "sg0 \<noteq> 0"
    by (simp add: sg0_def')
  have s5a: "sign (bf s5 q) = (if q = r then sg0 else sign (bf s q))" for q
    by (simp add: s5_def sg4)
  have sg6: "sign (bf s6 r) =
      (if a \<noteq> r \<and> sign (bf s a) = 0 \<or> b \<noteq> r \<and> sign (bf s b) = 0 then 0
       else if sign (bf s a) = sign (bf s b) then 1 else - 1)"
    using sg0 by (auto simp: s6_def s5a sg0_def')
  have "sign (bf t r) = (if bf_is_zero r s6 then 0 else sign (bf s6 r))"
    by (simp add: t)
  then show "sign (bf t r) =
           (if mag t r n = 0 then 0
            else if a \<noteq> r \<and> sign (bf s a) = 0 \<or> b \<noteq> r \<and> sign (bf s b) = 0 then 0
            else if sign (bf s a) = sign (bf s b) then 1 else - 1)"
    by (simp only: z sg6)
qed

text \<open>
  C4.  For every limb count \<open>n\<close> of \<open>a\<close>, above \<open>KARATSUBA_THRESHOLD\<close> as well as below,
  \<^verbatim>\<open>bf_mul\<close> yields the state that \<^verbatim>\<open>bf_mul_schoolbook\<close> yields (above the threshold the
  dispatch goes to \<^verbatim>\<open>bf_mul_karatsuba\<close>, which calls the schoolbook product), and that is
  the fixed-point product: the result has \<open>n\<close> limbs, and they denote
  \<open>fixed_point_product n |a| |b|\<close>, the window of \<open>n\<close> limbs of the \<open>2 * n\<close>-limb product
  that starts 4 bits below its upper \<open>n\<close> limbs.  The sign of the result is \<open>0\<close> when every
  limb of the result is \<open>0\<close>, which happens for nonzero operands too; it is \<open>0\<close> when an
  operand has sign \<open>0\<close>; otherwise it is \<open>1\<close> for operands of equal sign and \<open>- 1\<close> for
  operands of different sign.  The test \<^verbatim>\<open>a->sign == 0 || b->sign == 0\<close> comes after
  \<^verbatim>\<open>r->sign\<close> is written, so it sees the sign of an operand only when that operand is not
  \<open>r\<close> itself.  The output \<open>r\<close> may be one of the operands.
\<close>

theorem bf_mul_fixed_point_product:
  fixes r a b :: ref and s :: state
  defines "n \<equiv> nlimbs (bf s a)" and "t \<equiv> bf_mul r a b s"
  shows "t = bf_mul_schoolbook r a b s \<and>
         nlimbs (bf t r) = n \<and>
         mag t r n = fixed_point_product n (mag s a n) (mag s b n) \<and>
         sign (bf t r) =
           (if mag t r n = 0 then 0
            else if a \<noteq> r \<and> sign (bf s a) = 0 \<or> b \<noteq> r \<and> sign (bf s b) = 0 then 0
            else if sign (bf s a) = sign (bf s b) then 1 else - 1)"
proof -
  have t: "t = bf_mul_schoolbook r a b s"
    by (simp add: t_def bf_mul_def bf_mul_karatsuba_def)
  show ?thesis
    unfolding t n_def
    using bf_mul_schoolbook_value [of r a b s] by simp
qed

lemma mag_Suc: "mag s p (Suc n) = mag s p n + unat (limb s p n) * 2 ^ (32 * n)"
  by (simp add: mag_def)

lemma mag_top_limb:
  assumes "\<And>i. i < n \<Longrightarrow> limb s p i = 0"
  shows "mag s p (Suc n) = unat (limb s p n) * 2 ^ (32 * n)"
  using assms by (simp add: mag_Suc mag_eq_0_iff)

text \<open>
  With 17 limbs, above the threshold: \<open>1.5\<close> times \<open>- 2.5\<close> is \<open>- 3.75\<close>.
\<close>

theorem bf_mul_fixed_point_product_witness:
  "(let s = store_obj (Obj 0) (replicate 16 0 @ [0x18000000]) 1
              (store_obj (Obj 1) (replicate 16 0 @ [0x28000000]) (- 1) zero_state);
        t = bf_mul (Obj 2) (Obj 0) (Obj 1) s
    in nlimbs (bf s (Obj 0)) = 17 \<and> KARATSUBA_THRESHOLD < nlimbs (bf s (Obj 0)) \<and>
       mag s (Obj 0) 17 = 0x18000000 * 2 ^ 512 \<and> mag s (Obj 1) 17 = 0x28000000 * 2 ^ 512 \<and>
       t = bf_mul_schoolbook (Obj 2) (Obj 0) (Obj 1) s \<and>
       nlimbs (bf t (Obj 2)) = 17 \<and>
       mag t (Obj 2) 17 = 0x3C000000 * 2 ^ 512 \<and>
       sign (bf t (Obj 2)) = - 1)"
proof -
  define s where "s = store_obj (Obj 0) (replicate 16 0 @ [0x18000000]) 1
              (store_obj (Obj 1) (replicate 16 0 @ [0x28000000]) (- 1) zero_state)"
  define t where "t = bf_mul (Obj 2) (Obj 0) (Obj 1) s"
  define A :: nat where "A = 0x18000000 * 2 ^ 512"
  define B :: nat where "B = 0x28000000 * 2 ^ 512"
  define C :: nat where "C = 0x3C000000 * 2 ^ 512"
  have n: "nlimbs (bf s (Obj 0)) = 17"
    by (simp add: s_def)
  have k: "KARATSUBA_THRESHOLD < nlimbs (bf s (Obj 0))"
    by (simp add: n KARATSUBA_THRESHOLD_def)
  have sg: "sign (bf s (Obj 0)) = 1" "sign (bf s (Obj 1)) = - 1"
    by (simp_all add: s_def)
  have "mag s (Obj 0) (Suc 16) = unat (limb s (Obj 0) 16) * 2 ^ (32 * 16)"
    by (rule mag_top_limb) (simp add: s_def nth_append)
  then have a: "mag s (Obj 0) 17 = A"
    by (simp add: s_def nth_append A_def)
  have "mag s (Obj 1) (Suc 16) = unat (limb s (Obj 1) 16) * 2 ^ (32 * 16)"
    by (rule mag_top_limb) (simp add: s_def nth_append)
  then have b: "mag s (Obj 1) 17 = B"
    by (simp add: s_def nth_append B_def)
  have fp: "fixed_point_product 17 A B = C"
    by (simp add: fixed_point_product_def A_def B_def C_def)
  have c0: "C \<noteq> 0"
    by (simp add: C_def)
  note th = bf_mul_fixed_point_product [of "Obj 2" "Obj 0" "Obj 1" s, folded t_def,
      unfolded n a b fp sg]
  note eq = th [THEN conjunct1] and nl = th [THEN conjunct2, THEN conjunct1]
    and mg = th [THEN conjunct2, THEN conjunct2, THEN conjunct1]
    and sgn = th [THEN conjunct2, THEN conjunct2, THEN conjunct2]
  have sg1: "sign (bf t (Obj 2)) = - 1"
    using sgn c0 by (simp add: mg)
  show ?thesis
    unfolding Let_def s_def [symmetric] t_def [symmetric] A_def [symmetric] B_def [symmetric]
      C_def [symmetric]
    by (intro conjI; rule n k a b eq nl mg sg1)
qed

text \<open>
  C4, as stated, gives the product of two nonzero operands the XOR of their signs.  The
  two-limb operands with limbs \<open>1, 0\<close> and signs \<open>1\<close> and \<open>- 1\<close> are nonzero, and their
  product is below the resolution of the format: every limb of the result is \<open>0\<close> and its
  sign is \<open>0\<close>, where the XOR of the operand signs is \<open>- 1\<close>.
\<close>

theorem bf_mul_zero_product_sign:
  "(let s = store_obj (Obj 0) [1, 0] 1 (store_obj (Obj 1) [1, 0] (- 1) zero_state);
        t = bf_mul (Obj 2) (Obj 0) (Obj 1) s
    in sign (bf s (Obj 0)) = 1 \<and> sign (bf s (Obj 1)) = - 1 \<and>
       xor_sign (sign (bf s (Obj 0))) (sign (bf s (Obj 1))) = - 1 \<and>
       map (limb t (Obj 2)) [0, 1] = [0, 0] \<and> sign (bf t (Obj 2)) = 0)"
  by code_simp

section \<open>The escape test of the reference orbit\<close>


















end
